theory Spec2Isabelle
  imports Main
begin

section \<open>Execution flags (pipeline.go, lines 17--91)\<close>

text \<open>
  \<^verbatim>\<open>ExecutionFlags\<close> is a struct of four booleans and one int. Go's \<^verbatim>\<open>int\<close> is
  modelled as \<open>int\<close>: no arithmetic is done on \<^verbatim>\<open>MaxProcs\<close>, it is only stored.
\<close>

record ExecutionFlags =
  PipeFail :: bool
  Buffered :: bool
  Verbose :: bool
  DryRun :: bool
  MaxProcs :: int

text \<open>The zero value of the struct, which is what \<^verbatim>\<open>new(T)\<close> points to.\<close>

definition zero_ExecutionFlags :: ExecutionFlags where
  "zero_ExecutionFlags =
     \<lparr>PipeFail = False, Buffered = False, Verbose = False, DryRun = False, MaxProcs = 0\<rparr>"

text \<open>
  The five flag types of the package. Each is a named \<^verbatim>\<open>bool\<close> or \<^verbatim>\<open>int\<close>; the
  constructor carries the underlying value. The Go type \<^verbatim>\<open>MaxProcs\<close> shares its name with
  the struct field, so its constructor is \<open>MaxProcsFlag\<close>.
\<close>

datatype Flag =
    PipeFailFlag bool
  | BufferedFlag bool
  | VerboseFlag bool
  | DryRunFlag bool
  | MaxProcsFlag int

text \<open>The named constants (lines 29--53); \<^verbatim>\<open>PipeFail\<close> etc. clash with the field names.\<close>

definition PipeFail_on :: Flag where "PipeFail_on = PipeFailFlag True"
definition NoPipeFail :: Flag where "NoPipeFail = PipeFailFlag False"
definition Buffered_on :: Flag where "Buffered_on = BufferedFlag True"
definition Unbuffered :: Flag where "Unbuffered = BufferedFlag False"
definition Verbose_on :: Flag where "Verbose_on = VerboseFlag True"
definition Quiet :: Flag where "Quiet = VerboseFlag False"
definition DryRun_on :: Flag where "DryRun_on = DryRunFlag True"
definition NoDryRun :: Flag where "NoDryRun = DryRunFlag False"

text \<open>
  \<^verbatim>\<open>Configure(flags *ExecutionFlags)\<close> mutates the struct behind the pointer; the model
  returns the updated struct (lines 59--63).
\<close>

fun Configure :: "Flag \<Rightarrow> ExecutionFlags \<Rightarrow> ExecutionFlags" where
  "Configure (PipeFailFlag f) flags = flags\<lparr>PipeFail := f\<rparr>"
| "Configure (BufferedFlag f) flags = flags\<lparr>Buffered := f\<rparr>"
| "Configure (VerboseFlag f) flags = flags\<lparr>Verbose := f\<rparr>"
| "Configure (DryRunFlag f) flags = flags\<lparr>DryRun := f\<rparr>"
| "Configure (MaxProcsFlag m) flags = flags\<lparr>MaxProcs := m\<rparr>"

text \<open>
  \<^verbatim>\<open>opt.Switch[T]\<close> is an interface with the single method \<^verbatim>\<open>Configure(*T)\<close>: a
  switch is modelled by what its method does to the struct. An interface value may be
  \<^verbatim>\<open>nil\<close>, so the argument list of \<^verbatim>\<open>configure\<close> is a list of optional switches.
\<close>

type_synonym 'T Switch = "'T \<Rightarrow> 'T"

text \<open>
  \<^verbatim>\<open>configure\<close> (lines 82--91), at the only type it is used at in this file:
  start from the zero value, skip \<^verbatim>\<open>nil\<close>, apply the others in order.
\<close>

fun configure_loop :: "ExecutionFlags \<Rightarrow> ExecutionFlags Switch option list \<Rightarrow> ExecutionFlags" where
  "configure_loop def [] = def"
| "configure_loop def (None # opts) = configure_loop def opts"
| "configure_loop def (Some opt # opts) = configure_loop (opt def) opts"

definition configure :: "ExecutionFlags Switch option list \<Rightarrow> ExecutionFlags" where
  "configure opts = configure_loop zero_ExecutionFlags opts"

section \<open>Streams, commands and pipelines\<close>

text \<open>
  An \<^verbatim>\<open>io.Reader\<close> handed to a stage is either a stream of the caller or the read end of
  a pipe that \<^verbatim>\<open>Execute\<close> made; likewise for \<^verbatim>\<open>io.Writer\<close>. The two ends returned by
  one call of \<^verbatim>\<open>io.Pipe()\<close> carry the same number: the number of the connector.
\<close>

datatype 'r Reader = CallerReader 'r | PipeReader nat

datatype 'w Writer = CallerWriter 'w | PipeWriter nat

text \<open>
  \<^verbatim>\<open>Command\<close> (yup.go) is an interface with the single method
  \<^verbatim>\<open>Execute(ctx, stdin, stdout, stderr) error\<close>. A command is opaque to the pipeline. What
  a call of it comes to is either that it returns an error (\<open>None\<close> is \<^verbatim>\<open>nil\<close>) or that
  it never returns: the pipeline has no timeout, and \<^verbatim>\<open>Pipeline.Execute\<close> closes the write
  ends of its connectors only, never a read end, so a stage that writes to a connector whose
  reader has already returned stays in its write forever.
\<close>

datatype 'e outcome = Returns "'e option" | NeverReturns

text \<open>
  A command is modelled by the outcome of its call for the context and streams it is
  handed. The bytes it moves are its own business. In a run every stage is called once,
  each with its own pair of streams, so the commands of a pipeline can be chosen to give
  the stages any combination of outcomes.
\<close>

type_synonym ('c, 'r, 'w, 'e) Command =
  "'c \<Rightarrow> 'r Reader \<Rightarrow> 'w Writer \<Rightarrow> 'w Writer \<Rightarrow> 'e outcome"

record ('c, 'r, 'w, 'e) Pipeline =
  commands :: "('c, 'r, 'w, 'e) Command list"
  flags :: ExecutionFlags

definition NewPipeline :: "('c, 'r, 'w, 'e) Command list \<Rightarrow> ('c, 'r, 'w, 'e) Pipeline" where
  "NewPipeline cmds = \<lparr>commands = cmds, flags = zero_ExecutionFlags\<lparr>MaxProcs := 1\<rparr>\<rparr>"

definition WithFlags ::
  "('c, 'r, 'w, 'e) Pipeline \<Rightarrow> ExecutionFlags Switch option list \<Rightarrow> ('c, 'r, 'w, 'e) Pipeline" where
  "WithFlags p configurers = p\<lparr>flags := configure configurers\<rparr>"

definition Pipe :: "('c, 'r, 'w, 'e) Command list \<Rightarrow> ('c, 'r, 'w, 'e) Pipeline" where
  "Pipe cmds = NewPipeline cmds"

definition Exec :: "('c, 'r, 'w, 'e) Command \<Rightarrow> ('c, 'r, 'w, 'e) Pipeline" where
  "Exec cmd = NewPipeline [cmd]"

section \<open>Pipeline.Execute (pipeline.go, lines 94--170)\<close>

text \<open>
  What a run does to the world outside the orchestrator's own variables is recorded, in
  the order it happens, as a list of events.
\<close>

datatype ('c, 'r, 'w, 'e) event =
    IoPipe nat                                       \<comment> \<open>\<^verbatim>\<open>readers[i], pipes[i] = io.Pipe()\<close>\<close>
  | GoStage nat                                      \<comment> \<open>\<^verbatim>\<open>wg.Add(1); go func(i, cmd)\<close>\<close>
  | GoJoin                                           \<comment> \<open>\<^verbatim>\<open>go func() { wg.Wait(); close(errChan) }\<close>\<close>
  | Call nat 'c "'r Reader" "'w Writer" "'w Writer"  \<comment> \<open>stage \<open>i\<close> enters \<^verbatim>\<open>cmd.Execute\<close>\<close>
  | Return nat "'e option"                           \<comment> \<open>stage \<open>i\<close>'s \<^verbatim>\<open>cmd.Execute\<close> returns\<close>
  | CloseWrite nat nat                               \<comment> \<open>stage \<open>i\<close>: \<^verbatim>\<open>pipes[i].Close()\<close>, with the connector\<close>
  | Send nat 'e                                      \<comment> \<open>stage \<open>i\<close>: \<^verbatim>\<open>errChan <- err\<close>\<close>
  | WgDone nat                                       \<comment> \<open>stage \<open>i\<close>: the deferred \<^verbatim>\<open>wg.Done()\<close>\<close>
  | CloseChan                                        \<comment> \<open>\<^verbatim>\<open>close(errChan)\<close>\<close>
  | Recv 'e                                          \<comment> \<open>one iteration of \<^verbatim>\<open>for err := range errChan\<close>\<close>

text \<open>Where a stage goroutine is in its body (lines 118--152).\<close>

datatype ('r, 'w, 'e) task =
    NotStarted                             \<comment> \<open>not launched yet\<close>
  | Pending                                \<comment> \<open>launched, nothing executed\<close>
  | Running "'r Reader" "'w Writer"        \<comment> \<open>inside \<^verbatim>\<open>cmd.Execute\<close> with these streams\<close>
  | Returned "'e option"                   \<comment> \<open>\<^verbatim>\<open>err\<close> is set, line 139 done\<close>
  | Closed "'e option"                     \<comment> \<open>lines 142--144 done\<close>
  | Reported                               \<comment> \<open>lines 147--151 done\<close>
  | Done                                   \<comment> \<open>the deferred \<^verbatim>\<open>wg.Done()\<close> done\<close>

datatype mainpc =
    Launching nat        \<comment> \<open>in the loop of line 116, about to launch this index\<close>
  | Collecting           \<comment> \<open>in the loop of line 163\<close>
  | Finished             \<comment> \<open>returned from line 169\<close>

datatype joinpc = JoinNotStarted | Waiting | Joined

record ('c, 'r, 'w, 'e) state =
  pipes :: "nat list"                    \<comment> \<open>write ends, by connector number\<close>
  readers :: "nat list"                  \<comment> \<open>read ends, by connector number\<close>
  tasks :: "nat \<Rightarrow> ('r, 'w, 'e) task"
  mainpc :: mainpc
  joinpc :: joinpc
  wg :: int                              \<comment> \<open>the counter of the \<^verbatim>\<open>sync.WaitGroup\<close>\<close>
  errChan :: "'e list"                   \<comment> \<open>the buffer of the channel, oldest first\<close>
  errChan_closed :: bool
  firstErr :: "'e option"
  panicked :: bool
  trace :: "('c, 'r, 'w, 'e) event list"

text \<open>Slice indexing panics out of range.\<close>

definition index :: "'a list \<Rightarrow> int \<Rightarrow> 'a option" where
  "index xs i = (if 0 \<le> i \<and> i < int (length xs) then Some (xs ! nat i) else None)"

text \<open>Lines 124--136: the streams of stage \<open>i\<close>.\<close>

definition cmdInput :: "'r \<Rightarrow> nat list \<Rightarrow> nat \<Rightarrow> 'r Reader option" where
  "cmdInput input rs i =
     (if i = 0 then Some (CallerReader input)
      else map_option PipeReader (index rs (int i - 1)))"

definition cmdOutput :: "nat \<Rightarrow> 'w \<Rightarrow> nat list \<Rightarrow> nat \<Rightarrow> 'w Writer option" where
  "cmdOutput n output ps i =
     (if int i = int n - 1 then Some (CallerWriter output)
      else map_option PipeWriter (index ps (int i)))"

text \<open>
  One step of stage goroutine \<open>i\<close>. A goroutine that is not launched, has finished, is
  inside a call that never returns, or is blocked on a full channel does nothing when
  scheduled.
\<close>

definition stage_step ::
  "('c, 'r, 'w, 'e) Pipeline \<Rightarrow> 'c \<Rightarrow> 'r \<Rightarrow> 'w \<Rightarrow> 'w \<Rightarrow> nat \<Rightarrow>
   ('c, 'r, 'w, 'e) state \<Rightarrow> ('c, 'r, 'w, 'e) state" where
  "stage_step p ctx input output stderr i s =
     (case tasks s i of
        NotStarted \<Rightarrow> s
      | Pending \<Rightarrow>
          (case cmdInput input (readers s) i of
             None \<Rightarrow> s\<lparr>panicked := True\<rparr>
           | Some cin \<Rightarrow>
               (case cmdOutput (length (commands p)) output (pipes s) i of
                  None \<Rightarrow> s\<lparr>panicked := True\<rparr>
                | Some cout \<Rightarrow>
                    s\<lparr>tasks := (tasks s)(i := Running cin cout),
                      trace := trace s @ [Call i ctx cin cout (CallerWriter stderr)]\<rparr>))
      | Running cin cout \<Rightarrow>
          (case (commands p ! i) ctx cin cout (CallerWriter stderr) of
             NeverReturns \<Rightarrow> s
           | Returns err \<Rightarrow>
               s\<lparr>tasks := (tasks s)(i := Returned err), trace := trace s @ [Return i err]\<rparr>)
      | Returned err \<Rightarrow>
          (if int i < int (length (commands p)) - 1 then
             (case index (pipes s) (int i) of
                None \<Rightarrow> s\<lparr>panicked := True\<rparr>
              | Some k \<Rightarrow>
                  s\<lparr>tasks := (tasks s)(i := Closed err), trace := trace s @ [CloseWrite i k]\<rparr>)
           else s\<lparr>tasks := (tasks s)(i := Closed err)\<rparr>)
      | Closed err \<Rightarrow>
          (case err of
             None \<Rightarrow> s\<lparr>tasks := (tasks s)(i := Reported)\<rparr>
           | Some e \<Rightarrow>
               if PipeFail (flags p) then
                 (if errChan_closed s then s\<lparr>panicked := True\<rparr>
                  else if length (errChan s) < length (commands p) then
                    s\<lparr>errChan := errChan s @ [e], tasks := (tasks s)(i := Reported),
                      trace := trace s @ [Send i e]\<rparr>
                  else s)
               else s\<lparr>tasks := (tasks s)(i := Reported)\<rparr>)
      | Reported \<Rightarrow>
          (if wg s - 1 < 0 then s\<lparr>panicked := True\<rparr>
           else s\<lparr>wg := wg s - 1, tasks := (tasks s)(i := Done), trace := trace s @ [WgDone i]\<rparr>)
      | Done \<Rightarrow> s)"

text \<open>
  One step of the goroutine of lines 156--159: \<^verbatim>\<open>wg.Wait()\<close> returns once the counter
  is zero, then the channel is closed.
\<close>

definition join_step :: "('c, 'r, 'w, 'e) state \<Rightarrow> ('c, 'r, 'w, 'e) state" where
  "join_step s =
     (case joinpc s of
        JoinNotStarted \<Rightarrow> s
      | Waiting \<Rightarrow>
          (if wg s = 0 then
             (if errChan_closed s then s\<lparr>panicked := True\<rparr>
              else s\<lparr>errChan_closed := True, joinpc := Joined, trace := trace s @ [CloseChan]\<rparr>)
           else s)
      | Joined \<Rightarrow> s)"

text \<open>
  One step of the calling goroutine from line 116 on: launch the next stage, or launch the
  join goroutine when the loop is over, or receive one error, or leave the receive loop
  when the channel is closed and empty.
\<close>

definition main_step ::
  "('c, 'r, 'w, 'e) Pipeline \<Rightarrow> ('c, 'r, 'w, 'e) state \<Rightarrow> ('c, 'r, 'w, 'e) state" where
  "main_step p s =
     (case mainpc s of
        Launching i \<Rightarrow>
          (if i < length (commands p) then
             s\<lparr>wg := wg s + 1, tasks := (tasks s)(i := Pending), mainpc := Launching (i + 1),
               trace := trace s @ [GoStage i]\<rparr>
           else s\<lparr>joinpc := Waiting, mainpc := Collecting, trace := trace s @ [GoJoin]\<rparr>)
      | Collecting \<Rightarrow>
          (case errChan s of
             e # rest \<Rightarrow>
               s\<lparr>errChan := rest,
                 firstErr := (if firstErr s = None then Some e else firstErr s),
                 trace := trace s @ [Recv e]\<rparr>
           | [] \<Rightarrow> if errChan_closed s then s\<lparr>mainpc := Finished\<rparr> else s)
      | Finished \<Rightarrow> s)"

text \<open>
  The goroutines run interleaved. Which one moves next is not decided by the program: it
  is a parameter of the model, a list of goroutine names, and a property of
  \<^verbatim>\<open>Execute\<close> is a property of all such lists. A goroutine that is scheduled takes
  one step: it moves to its next program point and does what the source does in between.
  A call of a stage takes two steps, the entry and the return, so that the stages are
  inside their commands at the same time; the second step is there only for a call that
  returns. After a panic nothing moves.
\<close>

datatype goroutine = MainG | StageG nat | JoinG

definition step ::
  "('c, 'r, 'w, 'e) Pipeline \<Rightarrow> 'c \<Rightarrow> 'r \<Rightarrow> 'w \<Rightarrow> 'w \<Rightarrow>
   ('c, 'r, 'w, 'e) state \<Rightarrow> goroutine \<Rightarrow> ('c, 'r, 'w, 'e) state" where
  "step p ctx input output stderr s g =
     (if panicked s then s
      else case g of
             MainG \<Rightarrow> main_step p s
           | StageG i \<Rightarrow> stage_step p ctx input output stderr i s
           | JoinG \<Rightarrow> join_step s)"

definition run ::
  "('c, 'r, 'w, 'e) Pipeline \<Rightarrow> 'c \<Rightarrow> 'r \<Rightarrow> 'w \<Rightarrow> 'w \<Rightarrow>
   ('c, 'r, 'w, 'e) state \<Rightarrow> goroutine list \<Rightarrow> ('c, 'r, 'w, 'e) state" where
  "run p ctx input output stderr s sched = foldl (step p ctx input output stderr) s sched"

text \<open>
  The state at line 116: the \<open>N - 1\<close> pipes are made (lines 104--109), the wait group
  and the channel are fresh, no goroutine is launched.
\<close>

definition init :: "nat \<Rightarrow> ('c, 'r, 'w, 'e) state" where
  "init n =
     \<lparr>pipes = [0..<n - 1], readers = [0..<n - 1], tasks = (\<lambda>i. NotStarted),
      mainpc = Launching 0, joinpc = JoinNotStarted, wg = 0, errChan = [],
      errChan_closed = False, firstErr = None, panicked = False,
      trace = map IoPipe [0..<n - 1]\<rparr>"

text \<open>
  What the caller of \<^verbatim>\<open>Execute\<close> can observe: whether and with which error it has
  returned (\<open>None\<close>: it has not returned), whether the program panicked, and the events.
  On the paths without goroutines the schedule plays no part: the call returns at once, or
  returns what the one stage returns, or stays in the one stage.
\<close>

record ('c, 'r, 'w, 'e) execution =
  returned :: "'e option option"
  crashed :: bool
  effects :: "('c, 'r, 'w, 'e) event list"

definition Execute ::
  "('c, 'r, 'w, 'e) Pipeline \<Rightarrow> 'c \<Rightarrow> 'r \<Rightarrow> 'w \<Rightarrow> 'w \<Rightarrow> goroutine list \<Rightarrow>
   ('c, 'r, 'w, 'e) execution" where
  "Execute p ctx input output stderr sched =
     (if length (commands p) = 0 then
        \<lparr>returned = Some None, crashed = False, effects = []\<rparr>
      else if length (commands p) = 1 then
        (let cin = CallerReader input; cout = CallerWriter output; cerr = CallerWriter stderr
         in case (commands p ! 0) ctx cin cout cerr of
              NeverReturns \<Rightarrow>
                \<lparr>returned = None, crashed = False, effects = [Call 0 ctx cin cout cerr]\<rparr>
            | Returns err \<Rightarrow>
                \<lparr>returned = Some err, crashed = False,
                 effects = [Call 0 ctx cin cout cerr, Return 0 err]\<rparr>)
      else
        (let s = run p ctx input output stderr (init (length (commands p))) sched
         in \<lparr>returned = (if mainpc s = Finished then Some (firstErr s) else None),
             crashed = panicked s, effects = trace s\<rparr>))"

section \<open>Notions used to state the properties\<close>

subsection \<open>Flags\<close>

text \<open>
  The argument lists of \<^verbatim>\<open>WithFlags\<close> that are built from the package's own flag
  types (and \<^verbatim>\<open>nil\<close>): each entry is turned into the switch that is its
  \<^verbatim>\<open>Configure\<close> method.
\<close>

definition switches :: "Flag option list \<Rightarrow> ExecutionFlags Switch option list" where
  "switches fs = map (map_option Configure) fs"

text \<open>Which field a flag targets, and the value it writes there.\<close>

fun PipeFail_of :: "Flag \<Rightarrow> bool option" where
  "PipeFail_of (PipeFailFlag f) = Some f"
| "PipeFail_of _ = None"

fun Buffered_of :: "Flag \<Rightarrow> bool option" where
  "Buffered_of (BufferedFlag f) = Some f"
| "Buffered_of _ = None"

fun Verbose_of :: "Flag \<Rightarrow> bool option" where
  "Verbose_of (VerboseFlag f) = Some f"
| "Verbose_of _ = None"

fun DryRun_of :: "Flag \<Rightarrow> bool option" where
  "DryRun_of (DryRunFlag f) = Some f"
| "DryRun_of _ = None"

fun MaxProcs_of :: "Flag \<Rightarrow> int option" where
  "MaxProcs_of (MaxProcsFlag m) = Some m"
| "MaxProcs_of _ = None"

text \<open>
  The specification's reading of the fold, written from its words and not from the code:
  \<open>writes target fs\<close> are the values that the entries of \<open>fs\<close> write to one field, in
  list order; the field ends with the last of them, or with the zero value when there is
  none.
\<close>

fun writes :: "(Flag \<Rightarrow> 'a option) \<Rightarrow> Flag option list \<Rightarrow> 'a list" where
  "writes target [] = []"
| "writes target (None # fs) = writes target fs"
| "writes target (Some f # fs) =
     (case target f of None \<Rightarrow> writes target fs | Some v \<Rightarrow> v # writes target fs)"

definition last_write :: "'a \<Rightarrow> (Flag \<Rightarrow> 'a option) \<Rightarrow> Flag option list \<Rightarrow> 'a" where
  "last_write zero target fs = (if writes target fs = [] then zero else last (writes target fs))"

subsection \<open>Events\<close>

text \<open>The events that allocate a connector or launch a goroutine.\<close>

fun allocates_or_launches :: "('c, 'r, 'w, 'e) event \<Rightarrow> bool" where
  "allocates_or_launches (IoPipe k) = True"
| "allocates_or_launches (GoStage i) = True"
| "allocates_or_launches GoJoin = True"
| "allocates_or_launches _ = False"

subsection \<open>Stages\<close>

text \<open>
  The wiring as the specification words it: stage \<open>i\<close> reads the external input when
  \<open>i = 0\<close> and otherwise the read end of connector \<open>i - 1\<close>; it writes the external
  output when \<open>i = n - 1\<close> and otherwise the write end of connector \<open>i\<close>.
\<close>

definition stage_input :: "'r \<Rightarrow> nat \<Rightarrow> 'r Reader" where
  "stage_input input i = (if i = 0 then CallerReader input else PipeReader (i - 1))"

definition stage_output :: "nat \<Rightarrow> 'w \<Rightarrow> nat \<Rightarrow> 'w Writer" where
  "stage_output n output i = (if i = n - 1 then CallerWriter output else PipeWriter i)"

text \<open>
  The outcome of the call of stage \<open>i\<close> when it is handed these streams: whether it
  returns, and the error it returns if it does.
\<close>

definition stage_outcome ::
  "('c, 'r, 'w, 'e) Pipeline \<Rightarrow> 'c \<Rightarrow> 'r \<Rightarrow> 'w \<Rightarrow> 'w \<Rightarrow> nat \<Rightarrow> 'e outcome" where
  "stage_outcome p ctx input output stderr i =
     (commands p ! i) ctx (stage_input input i) (stage_output (length (commands p)) output i)
       (CallerWriter stderr)"

fun returns :: "'e outcome \<Rightarrow> bool" where
  "returns (Returns err) = True"
| "returns NeverReturns = False"

fun error_of :: "'e outcome \<Rightarrow> 'e option" where
  "error_of (Returns err) = err"
| "error_of NeverReturns = None"

definition stage_error ::
  "('c, 'r, 'w, 'e) Pipeline \<Rightarrow> 'c \<Rightarrow> 'r \<Rightarrow> 'w \<Rightarrow> 'w \<Rightarrow> nat \<Rightarrow> 'e option" where
  "stage_error p ctx input output stderr i = error_of (stage_outcome p ctx input output stderr i)"

text \<open>The goroutine of stage \<open>i\<close> that an event belongs to, and the events of one stage.\<close>

fun stage_of :: "('c, 'r, 'w, 'e) event \<Rightarrow> nat option" where
  "stage_of (Call i c cin cout cerr) = Some i"
| "stage_of (Return i err) = Some i"
| "stage_of (CloseWrite i k) = Some i"
| "stage_of (Send i e) = Some i"
| "stage_of (WgDone i) = Some i"
| "stage_of _ = None"

definition stage_events :: "nat \<Rightarrow> ('c, 'r, 'w, 'e) event list \<Rightarrow> ('c, 'r, 'w, 'e) event list" where
  "stage_events i tr = filter (\<lambda>ev. stage_of ev = Some i) tr"

text \<open>
  The events of a stage goroutine that gets all the steps it can take: the call and, if
  the call returns, the return, the close of its connector unless it is the last stage,
  the report of its error if it has one and \<^verbatim>\<open>PipeFail\<close> is set, and the release of the
  wait group.
\<close>

definition close_events :: "nat \<Rightarrow> nat \<Rightarrow> ('c, 'r, 'w, 'e) event list" where
  "close_events n i = (if i < n - 1 then [CloseWrite i i] else [])"

definition report_errors :: "bool \<Rightarrow> 'e option \<Rightarrow> 'e list" where
  "report_errors pf err = (case err of None \<Rightarrow> [] | Some e \<Rightarrow> if pf then [e] else [])"

definition report_events :: "bool \<Rightarrow> nat \<Rightarrow> 'e option \<Rightarrow> ('c, 'r, 'w, 'e) event list" where
  "report_events pf i err = map (Send i) (report_errors pf err)"

definition stage_program ::
  "('c, 'r, 'w, 'e) Pipeline \<Rightarrow> 'c \<Rightarrow> 'r \<Rightarrow> 'w \<Rightarrow> 'w \<Rightarrow> nat \<Rightarrow> ('c, 'r, 'w, 'e) event list" where
  "stage_program p ctx input output stderr i =
     Call i ctx (stage_input input i) (stage_output (length (commands p)) output i)
       (CallerWriter stderr)
     # (case stage_outcome p ctx input output stderr i of
          NeverReturns \<Rightarrow> []
        | Returns err \<Rightarrow>
            Return i err # close_events (length (commands p)) i
            @ report_events (PipeFail (flags p)) i err @ [WgDone i])"

text \<open>The part of its program that a stage goroutine has behind it.\<close>

definition task_events ::
  "('c, 'r, 'w, 'e) Pipeline \<Rightarrow> 'c \<Rightarrow> 'r \<Rightarrow> 'w \<Rightarrow> 'w \<Rightarrow> nat \<Rightarrow> ('r, 'w, 'e) task \<Rightarrow>
   ('c, 'r, 'w, 'e) event list" where
  "task_events p ctx input output stderr i t =
     (let call = Call i ctx (stage_input input i) (stage_output (length (commands p)) output i)
                   (CallerWriter stderr);
          ret = Return i (stage_error p ctx input output stderr i);
          cl = close_events (length (commands p)) i;
          rep = report_events (PipeFail (flags p)) i (stage_error p ctx input output stderr i)
      in case t of
           NotStarted \<Rightarrow> []
         | Pending \<Rightarrow> []
         | Running cin cout \<Rightarrow> [call]
         | Returned err \<Rightarrow> [call, ret]
         | Closed err \<Rightarrow> [call, ret] @ cl
         | Reported \<Rightarrow> [call, ret] @ cl @ rep
         | Done \<Rightarrow> [call, ret] @ cl @ rep @ [WgDone i])"

text \<open>
  The local variables of a stage goroutine hold what the wiring says, and a goroutine
  that is past its call has a call that returns.
\<close>

definition task_ok ::
  "('c, 'r, 'w, 'e) Pipeline \<Rightarrow> 'c \<Rightarrow> 'r \<Rightarrow> 'w \<Rightarrow> 'w \<Rightarrow> nat \<Rightarrow> ('r, 'w, 'e) task \<Rightarrow> bool" where
  "task_ok p ctx input output stderr i t =
     (case t of
        Running cin cout \<Rightarrow>
          cin = stage_input input i \<and> cout = stage_output (length (commands p)) output i
      | Returned err \<Rightarrow> stage_outcome p ctx input output stderr i = Returns err
      | Closed err \<Rightarrow> stage_outcome p ctx input output stderr i = Returns err
      | Reported \<Rightarrow> returns (stage_outcome p ctx input output stderr i)
      | Done \<Rightarrow> returns (stage_outcome p ctx input output stderr i)
      | _ \<Rightarrow> True)"

subsection \<open>The collector\<close>

text \<open>The errors sent on the channel and the errors received from it, in order.\<close>

fun arrivals :: "('c, 'r, 'w, 'e) event list \<Rightarrow> 'e list" where
  "arrivals [] = []"
| "arrivals (Send i e # tr) = e # arrivals tr"
| "arrivals (ev # tr) = arrivals tr"

fun receipts :: "('c, 'r, 'w, 'e) event list \<Rightarrow> 'e list" where
  "receipts [] = []"
| "receipts (Recv e # tr) = e # receipts tr"
| "receipts (ev # tr) = receipts tr"

definition first_of :: "'e list \<Rightarrow> 'e option" where
  "first_of es = (case es of [] \<Rightarrow> None | e # rest \<Rightarrow> Some e)"

subsection \<open>Counting goroutines\<close>

fun active :: "('r, 'w, 'e) task \<Rightarrow> bool" where
  "active NotStarted = False"
| "active Done = False"
| "active t = True"

fun reported :: "('r, 'w, 'e) task \<Rightarrow> bool" where
  "reported Reported = True"
| "reported Done = True"
| "reported t = False"

definition count :: "nat \<Rightarrow> ('a \<Rightarrow> bool) \<Rightarrow> (nat \<Rightarrow> 'a) \<Rightarrow> nat" where
  "count n P f = card {i. i < n \<and> P (f i)}"

fun launching :: "mainpc \<Rightarrow> bool" where
  "launching (Launching i) = True"
| "launching pc = False"

subsection \<open>The invariant of the run of two or more stages\<close>

text \<open>
  While the caller launches, the stages below its loop index are launched and the others
  are not, and there is no join goroutine; afterwards all stages are launched and the join
  goroutine exists.
\<close>

definition inv_main :: "nat \<Rightarrow> ('c, 'r, 'w, 'e) state \<Rightarrow> bool" where
  "inv_main n s =
     (case mainpc s of
        Launching k \<Rightarrow>
          k \<le> n \<and> (\<forall>i<k. tasks s i \<noteq> NotStarted) \<and> (\<forall>i\<ge>k. tasks s i = NotStarted)
          \<and> joinpc s = JoinNotStarted
      | _ \<Rightarrow>
          (\<forall>i<n. tasks s i \<noteq> NotStarted) \<and> (\<forall>i\<ge>n. tasks s i = NotStarted)
          \<and> joinpc s \<noteq> JoinNotStarted)"

text \<open>
  The channel is closed by the join goroutine only, and only when every stage goroutine is
  through. What has been sent is what has been received followed by what is buffered;
  \<^verbatim>\<open>firstErr\<close> is the first error received; only goroutines that are past their report
  have an error in the buffer, so a goroutine that is about to send finds room. The caller
  leaves its loop only when the channel is closed and empty.
\<close>

definition inv_chan :: "nat \<Rightarrow> ('c, 'r, 'w, 'e) state \<Rightarrow> bool" where
  "inv_chan n s \<longleftrightarrow>
       (errChan_closed s \<longleftrightarrow> joinpc s = Joined)
     \<and> (errChan_closed s \<longrightarrow> (\<forall>i<n. tasks s i = Done))
     \<and> arrivals (trace s) = receipts (trace s) @ errChan s
     \<and> firstErr s = first_of (receipts (trace s))
     \<and> length (errChan s) \<le> count n reported (tasks s)
     \<and> (mainpc s = Finished \<longrightarrow> errChan_closed s \<and> errChan s = [])"

text \<open>
  The events of each stage goroutine are the part of its program that its program point
  says it has behind it.
\<close>

definition inv_stage ::
  "('c, 'r, 'w, 'e) Pipeline \<Rightarrow> 'c \<Rightarrow> 'r \<Rightarrow> 'w \<Rightarrow> 'w \<Rightarrow> ('c, 'r, 'w, 'e) state \<Rightarrow> bool" where
  "inv_stage p ctx input output stderr s \<longleftrightarrow>
     (\<forall>i. task_ok p ctx input output stderr i (tasks s i)
        \<and> stage_events i (trace s) = task_events p ctx input output stderr i (tasks s i))"

text \<open>
  All of it, with: no panic has happened, the slices hold the connectors in order, the
  connectors were made first and the goroutines launched in order, and the counter of the
  wait group is the number of launched stage goroutines that are not through.
\<close>

definition inv ::
  "('c, 'r, 'w, 'e) Pipeline \<Rightarrow> 'c \<Rightarrow> 'r \<Rightarrow> 'w \<Rightarrow> 'w \<Rightarrow> ('c, 'r, 'w, 'e) state \<Rightarrow> bool" where
  "inv p ctx input output stderr s \<longleftrightarrow>
       2 \<le> length (commands p)
     \<and> \<not> panicked s
     \<and> pipes s = [0..<length (commands p) - 1]
     \<and> readers s = [0..<length (commands p) - 1]
     \<and> filter allocates_or_launches (trace s) =
         map IoPipe [0..<length (commands p) - 1]
         @ map GoStage [0..<count (length (commands p)) (\<lambda>t. t \<noteq> NotStarted) (tasks s)]
         @ (if launching (mainpc s) then [] else [GoJoin])
     \<and> wg s = int (count (length (commands p)) active (tasks s))
     \<and> inv_main (length (commands p)) s
     \<and> inv_chan (length (commands p)) s
     \<and> inv_stage p ctx input output stderr s"

text \<open>
  A schedule that gives every goroutine, after whatever has happened, all the steps it can
  still take: the caller launches what is not launched yet, every stage goroutine gets
  the five steps of its body, the join goroutine gets its step, and the caller drains the
  channel. It brings the run to its end unless a stage never returns.
\<close>

definition finish :: "nat \<Rightarrow> goroutine list" where
  "finish n =
     replicate (Suc n) MainG
     @ concat (map (\<lambda>i. replicate 5 (StageG i)) [0..<n])
     @ [JoinG]
     @ replicate (Suc n) MainG"

text \<open>The program points after the call of the stage.\<close>

fun past_call :: "('r, 'w, 'e) task \<Rightarrow> bool" where
  "past_call (Returned err) = True"
| "past_call (Closed err) = True"
| "past_call Reported = True"
| "past_call Done = True"
| "past_call t = False"

text \<open>The number of steps a launched stage goroutine still has to take.\<close>

fun steps_left :: "('r, 'w, 'e) task \<Rightarrow> nat" where
  "steps_left NotStarted = 5"
| "steps_left Pending = 5"
| "steps_left (Running cin cout) = 4"
| "steps_left (Returned err) = 3"
| "steps_left (Closed err) = 2"
| "steps_left Reported = 1"
| "steps_left Done = 0"

subsection \<open>Kinds of events\<close>

fun closes_connector :: "nat \<Rightarrow> ('c, 'r, 'w, 'e) event \<Rightarrow> bool" where
  "closes_connector k (CloseWrite i k') = (k' = k)"
| "closes_connector k ev = False"

fun is_IoPipe :: "('c, 'r, 'w, 'e) event \<Rightarrow> bool" where
  "is_IoPipe (IoPipe k) = True"
| "is_IoPipe ev = False"

fun is_Call :: "('c, 'r, 'w, 'e) event \<Rightarrow> bool" where
  "is_Call (Call i c cin cout cerr) = True"
| "is_Call ev = False"

fun is_Return :: "('c, 'r, 'w, 'e) event \<Rightarrow> bool" where
  "is_Return (Return i err) = True"
| "is_Return ev = False"

subsection \<open>Concrete pipelines and schedules\<close>

definition succeeds :: "(unit, unit, unit, string) Command" where
  "succeeds = (\<lambda>ctx cin cout cerr. Returns None)"

definition fails :: "string \<Rightarrow> (unit, unit, unit, string) Command" where
  "fails msg = (\<lambda>ctx cin cout cerr. Returns (Some msg))"

text \<open>
  A stage whose call never returns, as that of a stage that writes to its connector when
  the next stage returns without reading.
\<close>

definition stuck :: "(unit, unit, unit, string) Command" where
  "stuck = (\<lambda>ctx cin cout cerr. NeverReturns)"

text \<open>Three stages, the first and the last fail, \<^verbatim>\<open>PipeFail\<close> is set.\<close>

definition two_failures :: "(unit, unit, unit, string) Pipeline" where
  "two_failures =
     WithFlags (NewPipeline [fails ''first'', succeeds, fails ''last'']) (switches [Some PipeFail_on])"

text \<open>A schedule under which the last stage runs to its end before the others start.\<close>

definition last_stage_first :: "goroutine list" where
  "last_stage_first = replicate 4 MainG @ replicate 5 (StageG 2) @ finish 3"

text \<open>Two stages, the terminal one fails, \<^verbatim>\<open>PipeFail\<close> is not set.\<close>

definition terminal_failure :: "(unit, unit, unit, string) Pipeline" where
  "terminal_failure = NewPipeline [succeeds, fails ''last'']"

text \<open>One stage, which fails, \<^verbatim>\<open>PipeFail\<close> is not set.\<close>

definition lone_failure :: "(unit, unit, unit, string) Pipeline" where
  "lone_failure = NewPipeline [fails ''only'']"

text \<open>Two stages that succeed, \<^verbatim>\<open>PipeFail\<close> is set.\<close>

definition no_failure :: "(unit, unit, unit, string) Pipeline" where
  "no_failure = WithFlags (NewPipeline [succeeds, succeeds]) (switches [Some PipeFail_on])"

text \<open>
  Two stages: the first never returns, the second fails at once; with \<^verbatim>\<open>PipeFail\<close> set
  and without.
\<close>

definition stuck_then_failure :: "(unit, unit, unit, string) Pipeline" where
  "stuck_then_failure =
     WithFlags (NewPipeline [stuck, fails ''boom'']) (switches [Some PipeFail_on])"

definition stuck_then_failure_quiet :: "(unit, unit, unit, string) Pipeline" where
  "stuck_then_failure_quiet = NewPipeline [stuck, fails ''boom'']"

section \<open>Flags: the fold and the defaults\<close>

lemma last_write_Nil [simp]: "last_write zero target [] = zero"
  by (simp add: last_write_def)

lemma last_write_Cons_None [simp]: "last_write zero target (None # fs) = last_write zero target fs"
  by (simp add: last_write_def)

lemma last_write_Cons_Some [simp]:
  "last_write zero target (Some f # fs) =
     last_write (case target f of None \<Rightarrow> zero | Some v \<Rightarrow> v) target fs"
  by (simp add: last_write_def split: option.splits)

text \<open>The loop, started from any struct, leaves in each field its last write.\<close>

lemma configure_loop_last_write:
  "configure_loop def (switches fs) =
     \<lparr>PipeFail = last_write (PipeFail def) PipeFail_of fs,
      Buffered = last_write (Buffered def) Buffered_of fs,
      Verbose = last_write (Verbose def) Verbose_of fs,
      DryRun = last_write (DryRun def) DryRun_of fs,
      MaxProcs = last_write (MaxProcs def) MaxProcs_of fs\<rparr>"
proof (induction fs arbitrary: def)
  case Nil
  show ?case by (simp add: switches_def)
next
  case (Cons f fs)
  show ?case
  proof (cases f)
    case None
    with Cons show ?thesis by (simp add: switches_def)
  next
    case (Some fl)
    have "configure_loop def (switches (Some fl # fs)) = configure_loop (Configure fl def) (switches fs)"
      by (simp add: switches_def)
    with Some Cons [of "Configure fl def"] show ?thesis
      by (cases fl) simp_all
  qed
qed

text \<open>
  C8. Configuring is an order-sensitive, last-write-wins fold: starting from the zero
  struct, every field ends with the value of the last flag in the list that targets it,
  and a field that no flag targets keeps its zero value; \<^verbatim>\<open>nil\<close> entries are skipped and
  there is no error result. So \<^verbatim>\<open>configure(PipeFail, NoPipeFail)\<close> gives
  \<^verbatim>\<open>PipeFail = false\<close> and \<^verbatim>\<open>configure(NoPipeFail, PipeFail)\<close> gives \<^verbatim>\<open>PipeFail = true\<close>.
\<close>

theorem configure_last_write_wins:
  "configure (switches fs) =
     \<lparr>PipeFail = last_write False PipeFail_of fs,
      Buffered = last_write False Buffered_of fs,
      Verbose = last_write False Verbose_of fs,
      DryRun = last_write False DryRun_of fs,
      MaxProcs = last_write 0 MaxProcs_of fs\<rparr>
   \<and> PipeFail (configure (switches [Some PipeFail_on, Some NoPipeFail])) = False
   \<and> PipeFail (configure (switches [Some NoPipeFail, Some PipeFail_on])) = True"
  by (simp add: configure_def configure_loop_last_write zero_ExecutionFlags_def
      PipeFail_on_def NoPipeFail_def)

text \<open>
  C7, evaluated on the code. \<^verbatim>\<open>NewPipeline\<close> sets \<^verbatim>\<open>MaxProcs\<close> to 1 and leaves the four
  booleans false. \<^verbatim>\<open>WithFlags\<close> does not keep that default: it replaces the flags by what
  \<^verbatim>\<open>configure\<close> builds from the zero struct, so after \<^verbatim>\<open>WithFlags(PipeFail)\<close>, and after
  \<^verbatim>\<open>WithFlags()\<close> with no argument, \<^verbatim>\<open>MaxProcs\<close> is 0.
\<close>

theorem WithFlags_resets_MaxProcs:
  "flags (NewPipeline cmds) =
     \<lparr>PipeFail = False, Buffered = False, Verbose = False, DryRun = False, MaxProcs = 1\<rparr>
   \<and> MaxProcs (flags (WithFlags (NewPipeline cmds) (switches [Some PipeFail_on]))) = 0
   \<and> MaxProcs (flags (WithFlags (NewPipeline cmds) (switches []))) = 0"
  by (simp add: NewPipeline_def WithFlags_def configure_def switches_def
      zero_ExecutionFlags_def PipeFail_on_def)

section \<open>Pipelines of zero and of one stage\<close>

text \<open>
  C10. A pipeline without stages returns \<^verbatim>\<open>nil\<close> at once: no stage is called, so no
  stream of the caller is read or written, and no connector is made. The run has no
  event at all.
\<close>

theorem Execute_no_stage:
  "Execute \<lparr>commands = [], flags = f\<rparr> ctx input output stderr sched =
     \<lparr>returned = Some None, crashed = False, effects = []\<rparr>"
  by (simp add: Execute_def)

text \<open>
  C6. A pipeline of one stage delegates to it: the stage is called once, with the caller's
  context and streams handed over as they are, and the result is what the stage returns;
  nothing else happens, in particular no connector is made and no goroutine is launched.
\<close>

theorem Execute_single_delegates:
  "Execute \<lparr>commands = [cmd], flags = f\<rparr> ctx input output stderr sched =
     (case cmd ctx (CallerReader input) (CallerWriter output) (CallerWriter stderr) of
        NeverReturns \<Rightarrow>
          \<lparr>returned = None, crashed = False,
           effects =
             [Call 0 ctx (CallerReader input) (CallerWriter output) (CallerWriter stderr)]\<rparr>
      | Returns err \<Rightarrow>
          \<lparr>returned = Some err, crashed = False,
           effects =
             [Call 0 ctx (CallerReader input) (CallerWriter output) (CallerWriter stderr),
              Return 0 err]\<rparr>)
   \<and> filter allocates_or_launches
        (effects (Execute \<lparr>commands = [cmd], flags = f\<rparr> ctx input output stderr sched)) = []"
  by (simp add: Execute_def Let_def split: outcome.splits)

text \<open>
  C3. For a pipeline of one stage the result is the stage's error, unchanged, whatever
  the value \<open>pf\<close> of \<^verbatim>\<open>PipeFail\<close>: the flag is read only on the path for two or more
  stages.
\<close>

theorem Execute_single_ignores_pipefail:
  "returned (Execute \<lparr>commands = [cmd], flags = f\<lparr>PipeFail := pf\<rparr>\<rparr> ctx input output stderr sched) =
     (case cmd ctx (CallerReader input) (CallerWriter output) (CallerWriter stderr) of
        NeverReturns \<Rightarrow> None
      | Returns err \<Rightarrow> Some err)"
  by (simp add: Execute_def Let_def split: outcome.splits)

section \<open>Counting and projections of the event list\<close>

text \<open>
  How the number of goroutines with a property changes when one goroutine moves.
\<close>

lemma count_insert:
  "j < n \<Longrightarrow> \<not> P (f j) \<Longrightarrow> P v \<Longrightarrow> count n P (f(j := v)) = Suc (count n P f)"
proof -
  assume a: "j < n" "\<not> P (f j)" "P v"
  have "{i. i < n \<and> P ((f(j := v)) i)} = insert j {i. i < n \<and> P (f i)}"
    using a by auto
  moreover have "j \<notin> {i. i < n \<and> P (f i)}" using a by simp
  ultimately show ?thesis by (simp add: count_def)
qed

lemma count_remove:
  "j < n \<Longrightarrow> P (f j) \<Longrightarrow> \<not> P v \<Longrightarrow> Suc (count n P (f(j := v))) = count n P f"
proof -
  assume a: "j < n" "P (f j)" "\<not> P v"
  have "{i. i < n \<and> P (f i)} = insert j {i. i < n \<and> P ((f(j := v)) i)}"
    using a by auto
  moreover have "j \<notin> {i. i < n \<and> P ((f(j := v)) i)}" using a by simp
  ultimately show ?thesis by (simp add: count_def)
qed

lemma count_same:
  "(P (f j) \<longleftrightarrow> P v) \<Longrightarrow> count n P (f(j := v)) = count n P f"
proof -
  assume a: "P (f j) \<longleftrightarrow> P v"
  have "{i. i < n \<and> P ((f(j := v)) i)} = {i. i < n \<and> P (f i)}"
    using a by auto
  then show ?thesis by (simp add: count_def)
qed

lemma count_le: "count n P f \<le> n"
proof -
  have "card {i. i < n \<and> P (f i)} \<le> card {..<n}"
    by (rule card_mono) auto
  then show ?thesis by (simp add: count_def)
qed

lemma count_less: "j < n \<Longrightarrow> \<not> P (f j) \<Longrightarrow> count n P f < n"
proof -
  assume a: "j < n" "\<not> P (f j)"
  have "{i. i < n \<and> P (f i)} \<subset> {..<n}" using a by auto
  then have "card {i. i < n \<and> P (f i)} < card {..<n}"
    by (intro psubset_card_mono) auto
  then show ?thesis by (simp add: count_def)
qed

lemma count_zero: "count n P f = 0 \<longleftrightarrow> (\<forall>i<n. \<not> P (f i))"
  by (auto simp: count_def)

lemma count_all:
  assumes "\<forall>i<k. P (f i)" and "\<forall>i\<ge>k. \<not> P (f i)" and "k \<le> n"
  shows "count n P f = k"
proof -
  have "{i. i < n \<and> P (f i)} = {..<k}"
  proof (rule set_eqI)
    fix i
    show "i \<in> {i. i < n \<and> P (f i)} \<longleftrightarrow> i \<in> {..<k}"
      using assms by (cases "i < k") simp_all
  qed
  then show ?thesis by (simp add: count_def)
qed

text \<open>
  The projections of the event list distribute over its growth.
\<close>

lemma arrivals_IoPipe [simp]: "arrivals (map IoPipe ks) = []"
  by (induction ks) simp_all

lemma receipts_IoPipe [simp]: "receipts (map IoPipe ks) = []"
  by (induction ks) simp_all

lemma arrivals_append [simp]: "arrivals (xs @ ys) = arrivals xs @ arrivals ys"
  by (induction xs rule: arrivals.induct) simp_all

lemma receipts_append [simp]: "receipts (xs @ ys) = receipts xs @ receipts ys"
  by (induction xs rule: receipts.induct) simp_all

lemma stage_events_append [simp]:
  "stage_events i (xs @ ys) = stage_events i xs @ stage_events i ys"
  by (simp add: stage_events_def)

lemma index_upt: "i < n \<Longrightarrow> index [0..<n] (int i) = Some i"
  by (simp add: index_def)

section \<open>The invariant holds at the start and is kept by the caller and the join goroutine\<close>

text \<open>
  The invariant holds when the goroutines are about to be launched.
\<close>

lemma inv_init:
  "2 \<le> length (commands p) \<Longrightarrow> inv p ctx input output stderr (init (length (commands p)))"
  by (simp add: inv_def init_def inv_main_def inv_chan_def inv_stage_def first_of_def
      count_def task_events_def task_ok_def stage_events_def filter_map o_def)

lemma first_of_snoc: "first_of (xs @ [e]) = (if first_of xs = None then Some e else first_of xs)"
  by (cases xs) (simp_all add: first_of_def)

text \<open>
  The caller keeps it: a launch adds an active goroutine and counts it in the wait
  group; a receive moves the head of the channel to the received errors.
\<close>

lemma inv_main_step:
  assumes "inv p ctx input output stderr s"
  shows "inv p ctx input output stderr (main_step p s)"
proof (cases "mainpc s")
  case (Launching k)
  from assms Launching have k: "k \<le> length (commands p)"
    and started: "\<forall>i<k. tasks s i \<noteq> NotStarted"
    and fresh: "\<forall>i\<ge>k. tasks s i = NotStarted"
    and nojoin: "joinpc s = JoinNotStarted"
    by (simp_all add: inv_def inv_main_def)
  from started fresh k have cnt: "count (length (commands p)) (\<lambda>t. t \<noteq> NotStarted) (tasks s) = k"
    by (intro count_all) simp_all
  show ?thesis
  proof (cases "k < length (commands p)")
    case True
    from fresh have tk: "tasks s k = NotStarted" by simp
    from True tk have c1: "count (length (commands p)) (\<lambda>t. t \<noteq> NotStarted) ((tasks s)(k := Pending)) = Suc k"
      using cnt by (simp add: count_insert)
    from True tk have c2: "count (length (commands p)) active ((tasks s)(k := Pending))
        = Suc (count (length (commands p)) active (tasks s))"
      by (simp add: count_insert)
    from tk have c3: "count (length (commands p)) reported ((tasks s)(k := Pending))
        = count (length (commands p)) reported (tasks s)"
      by (simp add: count_same)
    from started have st1: "\<forall>i<Suc k. ((tasks s)(k := Pending)) i \<noteq> NotStarted"
      by (simp add: less_Suc_eq)
    from fresh have st2: "\<forall>i\<ge>Suc k. ((tasks s)(k := Pending)) i = NotStarted"
      by simp
    from assms Launching True tk cnt c1 c2 c3 st1 st2 show ?thesis
      by (simp add: main_step_def inv_def inv_main_def inv_chan_def inv_stage_def
          task_ok_def task_events_def stage_events_def)
  next
    case False
    with k have "k = length (commands p)" by simp
    with assms Launching started fresh show ?thesis
      by (simp add: main_step_def inv_def inv_main_def inv_chan_def inv_stage_def
          stage_events_def)
  qed
next
  case Collecting
  show ?thesis
  proof (cases "errChan s")
    case Nil
    with assms Collecting show ?thesis
      by (simp add: main_step_def inv_def inv_main_def inv_chan_def inv_stage_def)
  next
    case (Cons e rest)
    with assms Collecting show ?thesis
      by (simp add: main_step_def inv_def inv_main_def inv_chan_def inv_stage_def
          stage_events_def first_of_snoc)
  qed
next
  case Finished
  with assms show ?thesis by (simp add: main_step_def)
qed


lemma not_active_Done: "\<not> active t \<Longrightarrow> t \<noteq> NotStarted \<Longrightarrow> t = Done"
  by (cases t) simp_all

text \<open>
  The join goroutine keeps it: when the counter is zero after the launches, every stage
  goroutine is through, so no send can follow the close.
\<close>

lemma inv_join_step:
  assumes "inv p ctx input output stderr s"
  shows "inv p ctx input output stderr (join_step s)"
proof (cases "joinpc s = Waiting \<and> wg s = 0")
  case False
  then show ?thesis using assms
    by (cases "joinpc s") (simp_all add: join_step_def)
next
  case True
  from assms True have nl: "\<not> launching (mainpc s)"
    by (cases "mainpc s") (simp_all add: inv_def inv_main_def)
  with assms have st: "\<forall>i<length (commands p). tasks s i \<noteq> NotStarted"
    by (cases "mainpc s") (simp_all add: inv_def inv_main_def)
  from assms True have "count (length (commands p)) active (tasks s) = 0"
    by (simp add: inv_def)
  then have "\<forall>i<length (commands p). \<not> active (tasks s i)"
    by (simp add: count_zero)
  with st have alldone: "\<forall>i<length (commands p). tasks s i = Done"
    by (simp add: not_active_Done)
  from assms True have notclosed: "\<not> errChan_closed s" and nf: "mainpc s \<noteq> Finished"
    by (auto simp: inv_def inv_chan_def)
  from assms True nl alldone notclosed nf show ?thesis
    by (simp add: join_step_def inv_def inv_main_def inv_chan_def inv_stage_def stage_events_def
        split: mainpc.splits)
qed

section \<open>The invariant is kept by the stage goroutines\<close>

text \<open>
  Facts read off the invariant.
\<close>

lemma started_less:
  assumes "inv p ctx input output stderr s" and "tasks s i \<noteq> NotStarted"
  shows "i < length (commands p)"
proof (rule ccontr)
  assume "\<not> i < length (commands p)"
  then have "length (commands p) \<le> i" by simp
  with assms(1) have "tasks s i = NotStarted"
    by (cases "mainpc s") (simp_all add: inv_def inv_main_def)
  with assms(2) show False by simp
qed

lemma launching_bound:
  assumes "inv p ctx input output stderr s" and "tasks s i \<noteq> NotStarted"
    and "mainpc s = Launching k"
  shows "\<not> k \<le> i"
proof
  assume "k \<le> i"
  with assms(1,3) have "tasks s i = NotStarted"
    by (simp add: inv_def inv_main_def)
  with assms(2) show False by simp
qed

lemma unfinished_open:
  assumes "inv p ctx input output stderr s" and "i < length (commands p)"
    and "tasks s i \<noteq> Done"
  shows "\<not> errChan_closed s" and "joinpc s \<noteq> Joined" and "mainpc s \<noteq> Finished"
proof -
  from assms show a: "\<not> errChan_closed s"
    by (auto simp: inv_def inv_chan_def)
  with assms(1) show "joinpc s \<noteq> Joined" "mainpc s \<noteq> Finished"
    by (auto simp: inv_def inv_chan_def)
qed

lemma inv_task:
  assumes "inv p ctx input output stderr s"
  shows "task_ok p ctx input output stderr i (tasks s i)"
    and "stage_events i (trace s) = task_events p ctx input output stderr i (tasks s i)"
  using assms by (simp_all add: inv_def inv_stage_def)

lemma returns_outcome: "returns oc \<Longrightarrow> oc = Returns (error_of oc)"
  by (cases oc) simp_all

lemma past_call_returns:
  assumes "inv p ctx input output stderr s" and "past_call (tasks s i)"
  shows "stage_outcome p ctx input output stderr i = Returns (stage_error p ctx input output stderr i)"
proof -
  from inv_task(1) [OF assms(1), of i] assms(2)
  have "returns (stage_outcome p ctx input output stderr i)"
    by (cases "tasks s i") (simp_all add: task_ok_def)
  then show ?thesis unfolding stage_error_def by (rule returns_outcome)
qed

text \<open>
  The slices are indexed in range, and the streams chosen are those of the wiring.
\<close>

lemma cmdInput_wired:
  "2 \<le> n \<Longrightarrow> i < n \<Longrightarrow> cmdInput input [0..<n - Suc 0] i = Some (stage_input input i)"
  by (cases i) (simp_all add: cmdInput_def stage_input_def index_def)

lemma cmdOutput_wired:
  "2 \<le> n \<Longrightarrow> i < n \<Longrightarrow> cmdOutput n output [0..<n - Suc 0] i = Some (stage_output n output i)"
  by (auto simp: cmdOutput_def stage_output_def index_def)

lemma close_wired:
  "2 \<le> n \<Longrightarrow> i < n \<Longrightarrow>
   (if int i < int n - 1 then
      (case index [0..<n - 1] (int i) of None \<Rightarrow> a | Some k \<Rightarrow> b [CloseWrite i k])
    else b []) = b (close_events n i)"
  by (auto simp: close_events_def index_def)

lemma arrivals_report [simp]: "arrivals (report_events pf i err) = report_errors pf err"
  by (simp add: report_events_def report_errors_def split: option.splits)

lemma receipts_report [simp]: "receipts (report_events pf i err) = []"
  by (simp add: report_events_def report_errors_def split: option.splits)

lemma launches_report [simp]: "filter allocates_or_launches (report_events pf i err) = []"
  by (simp add: report_events_def report_errors_def split: option.splits)

lemma stage_events_report [simp]:
  "stage_events j (report_events pf i err) = (if j = i then report_events pf i err else [])"
  by (simp add: stage_events_def report_events_def report_errors_def split: option.splits)

lemma length_report_errors: "length (report_errors pf err) \<le> 1"
  by (simp add: report_errors_def split: option.splits)

text \<open>
  What a step of a stage goroutine does in a state that satisfies the invariant: no index is
  out of range, the send finds room in the channel and finds it open, and the counter of
  the wait group does not go below zero.
\<close>

lemma stage_step_Pending:
  assumes "inv p ctx input output stderr s" and "tasks s i = Pending"
  shows "stage_step p ctx input output stderr i s =
      s\<lparr>tasks := (tasks s)(i := Running (stage_input input i)
                 (stage_output (length (commands p)) output i)),
        trace := trace s @ [Call i ctx (stage_input input i)
                 (stage_output (length (commands p)) output i) (CallerWriter stderr)]\<rparr>"
proof -
  from assms have i: "i < length (commands p)" by (simp add: started_less)
  from assms have n: "2 \<le> length (commands p)"
    and ps: "pipes s = [0..<length (commands p) - 1]"
    and rs: "readers s = [0..<length (commands p) - 1]"
    by (simp_all add: inv_def)
  from assms(2) ps rs n i show ?thesis
    by (simp add: stage_step_def cmdInput_wired cmdOutput_wired)
qed

lemma stage_step_Running:
  assumes "inv p ctx input output stderr s" and "tasks s i = Running cin cout"
  shows "stage_step p ctx input output stderr i s =
     (if returns (stage_outcome p ctx input output stderr i) then
        s\<lparr>tasks := (tasks s)(i := Returned (stage_error p ctx input output stderr i)),
          trace := trace s @ [Return i (stage_error p ctx input output stderr i)]\<rparr>
      else s)"
proof -
  from inv_task(1) [OF assms(1), of i] assms(2) have "cin = stage_input input i"
      "cout = stage_output (length (commands p)) output i"
    by (simp_all add: task_ok_def)
  with assms(2) show ?thesis
    by (simp add: stage_step_def stage_error_def stage_outcome_def split: outcome.splits)
qed

lemma stage_step_Returned:
  assumes "inv p ctx input output stderr s" and "tasks s i = Returned err"
  shows "stage_step p ctx input output stderr i s =
      s\<lparr>tasks := (tasks s)(i := Closed (stage_error p ctx input output stderr i)),
        trace := trace s @ close_events (length (commands p)) i\<rparr>"
proof -
  from assms have i: "i < length (commands p)" by (simp add: started_less)
  from assms have n: "2 \<le> length (commands p)"
    and ps: "pipes s = [0..<length (commands p) - 1]"
    by (simp_all add: inv_def)
  from inv_task(1) [OF assms(1), of i] assms(2)
  have "err = stage_error p ctx input output stderr i"
    by (simp add: task_ok_def stage_error_def)
  with assms(2) i n ps show ?thesis
    by (auto simp: stage_step_def close_events_def index_def)
qed

lemma stage_step_Closed:
  assumes "inv p ctx input output stderr s" and "tasks s i = Closed err"
  shows "stage_step p ctx input output stderr i s =
      s\<lparr>errChan := errChan s
           @ report_errors (PipeFail (flags p)) (stage_error p ctx input output stderr i),
        tasks := (tasks s)(i := Reported),
        trace := trace s
           @ report_events (PipeFail (flags p)) i (stage_error p ctx input output stderr i)\<rparr>"
proof -
  from assms have i: "i < length (commands p)" by (simp add: started_less)
  from assms i have notclosed: "\<not> errChan_closed s"
    by (simp add: unfinished_open)
  from assms(2) i have "count (length (commands p)) reported (tasks s) < length (commands p)"
    by (intro count_less [of i]) simp_all
  with assms(1) have room: "length (errChan s) < length (commands p)"
    by (simp add: inv_def inv_chan_def)
  from inv_task(1) [OF assms(1), of i] assms(2)
  have "err = stage_error p ctx input output stderr i"
    by (simp add: task_ok_def stage_error_def)
  with assms(2) notclosed room show ?thesis
    by (simp add: stage_step_def report_events_def report_errors_def split: option.splits)
qed

lemma stage_step_Reported:
  assumes "inv p ctx input output stderr s" and "tasks s i = Reported"
  shows "stage_step p ctx input output stderr i s =
      s\<lparr>wg := wg s - 1, tasks := (tasks s)(i := Done), trace := trace s @ [WgDone i]\<rparr>"
    and "wg s - 1 = int (count (length (commands p)) active ((tasks s)(i := Done)))"
proof -
  from assms have i: "i < length (commands p)" by (simp add: started_less)
  from assms(2) i have "Suc (count (length (commands p)) active ((tasks s)(i := Done)))
      = count (length (commands p)) active (tasks s)"
    by (simp add: count_remove)
  with assms(1) have pos: "\<not> wg s - 1 < 0"
    and wg': "wg s - 1 = int (count (length (commands p)) active ((tasks s)(i := Done)))"
    by (simp_all add: inv_def)
  from assms(2) pos show "stage_step p ctx input output stderr i s =
      s\<lparr>wg := wg s - 1, tasks := (tasks s)(i := Done), trace := trace s @ [WgDone i]\<rparr>"
    by (simp add: stage_step_def)
  from wg' show "wg s - 1 = int (count (length (commands p)) active ((tasks s)(i := Done)))" .
qed

text \<open>
  So the stage goroutines keep the invariant, and every run does.
\<close>

lemma inv_stage_step:
  assumes "inv p ctx input output stderr s"
  shows "inv p ctx input output stderr (stage_step p ctx input output stderr i s)"
proof (cases "tasks s i = NotStarted \<or> tasks s i = Done")
  case True
  with assms show ?thesis by (auto simp: stage_step_def)
next
  case False
  with assms have i: "i < length (commands p)" by (simp add: started_less)
  from False have nd: "tasks s i \<noteq> Done" and ns: "tasks s i \<noteq> NotStarted" by simp_all
  note lb = launching_bound [OF assms ns]
  note uo = unfinished_open [OF assms i nd]
  show ?thesis
  proof (cases "tasks s i")
    case NotStarted
    with False show ?thesis by simp
  next
    case Done
    with False show ?thesis by simp
  next
    case Pending
    from assms Pending i show ?thesis
      by (simp add: stage_step_Pending [OF assms Pending] lb uo
          inv_def inv_main_def inv_chan_def inv_stage_def
          count_same task_ok_def task_events_def stage_events_def
          split: mainpc.splits)
  next
    case (Running cin cout)
    show ?thesis
    proof (cases "returns (stage_outcome p ctx input output stderr i)")
      case False
      with assms show ?thesis by (simp add: stage_step_Running [OF assms Running])
    next
      case True
      then have oc: "stage_outcome p ctx input output stderr i
          = Returns (stage_error p ctx input output stderr i)"
        unfolding stage_error_def by (rule returns_outcome)
      from assms Running i True oc show ?thesis
        by (simp add: stage_step_Running [OF assms Running] lb uo
            inv_def inv_main_def inv_chan_def inv_stage_def
            count_same task_ok_def task_events_def stage_events_def
            split: mainpc.splits)
    qed
  next
    case (Returned err)
    from Returned have "past_call (tasks s i)" by simp
    note oc = past_call_returns [OF assms this]
    from assms Returned i oc show ?thesis
      by (simp add: stage_step_Returned [OF assms Returned] lb uo
          inv_def inv_main_def inv_chan_def inv_stage_def
          count_same task_ok_def task_events_def stage_events_def close_events_def
          split: mainpc.splits)
  next
    case (Closed err)
    from Closed i have c1: "count (length (commands p)) reported ((tasks s)(i := Reported))
        = Suc (count (length (commands p)) reported (tasks s))"
      by (simp add: count_insert)
    note le = length_report_errors [of "PipeFail (flags p)" "stage_error p ctx input output stderr i"]
    from Closed have "past_call (tasks s i)" by simp
    note oc = past_call_returns [OF assms this]
    from assms Closed i le oc show ?thesis
      by (simp add: stage_step_Closed [OF assms Closed] lb uo
          inv_def inv_main_def inv_chan_def inv_stage_def
          c1 count_same task_ok_def task_events_def
          split: mainpc.splits)
  next
    case Reported
    from Reported have "past_call (tasks s i)" by simp
    note oc = past_call_returns [OF assms this]
    from assms Reported i oc stage_step_Reported(2) [OF assms Reported] show ?thesis
      by (simp add: stage_step_Reported(1) [OF assms Reported] lb uo
          inv_def inv_main_def inv_chan_def inv_stage_def
          count_same task_ok_def task_events_def stage_events_def
          split: mainpc.splits)
  qed
qed

lemma inv_step:
  "inv p ctx input output stderr s \<Longrightarrow> inv p ctx input output stderr (step p ctx input output stderr s g)"
  by (cases g) (simp_all add: step_def inv_main_step inv_stage_step inv_join_step)

lemma inv_run:
  "inv p ctx input output stderr s \<Longrightarrow> inv p ctx input output stderr (run p ctx input output stderr s sched)"
  unfolding run_def by (induction sched arbitrary: s) (simp_all add: inv_step)

section \<open>Every goroutine gets as far as the stages let it\<close>

lemma run_Nil [simp]: "run p ctx input output stderr s [] = s"
  by (simp add: run_def)

lemma run_Cons [simp]:
  "run p ctx input output stderr s (g # gs) =
     run p ctx input output stderr (step p ctx input output stderr s g) gs"
  by (simp add: run_def)

lemma run_append:
  "run p ctx input output stderr s (gs @ hs) =
     run p ctx input output stderr (run p ctx input output stderr s gs) hs"
  by (simp add: run_def)

lemma step_inv_simps:
  assumes "inv p ctx input output stderr s"
  shows "step p ctx input output stderr s MainG = main_step p s"
    and "step p ctx input output stderr s (StageG i) = stage_step p ctx input output stderr i s"
    and "step p ctx input output stderr s JoinG = join_step s"
  using assms by (simp_all add: step_def inv_def)

lemma mainpc_stage_step [simp]: "mainpc (stage_step p ctx input output stderr i s) = mainpc s"
  by (simp add: stage_step_def Let_def split: task.splits option.splits outcome.splits)

lemma mainpc_join_step [simp]: "mainpc (join_step s) = mainpc s"
  by (simp add: join_step_def split: joinpc.splits)

lemma launched_step:
  "\<not> launching (mainpc s) \<Longrightarrow> \<not> launching (mainpc (step p ctx input output stderr s g))"
  by (cases g) (auto simp: step_def main_step_def split: mainpc.splits list.splits)

lemma launched_run:
  "\<not> launching (mainpc s) \<Longrightarrow> \<not> launching (mainpc (run p ctx input output stderr s sched))"
  by (induction sched arbitrary: s) (simp_all add: launched_step)

lemma closed_step:
  "errChan_closed s \<Longrightarrow> errChan_closed (step p ctx input output stderr s g)"
  by (cases g)
     (auto simp: step_def main_step_def stage_step_def join_step_def Let_def
           split: mainpc.splits list.splits task.splits option.splits joinpc.splits outcome.splits)

lemma closed_run:
  "errChan_closed s \<Longrightarrow> errChan_closed (run p ctx input output stderr s sched)"
  by (induction sched arbitrary: s) (simp_all add: closed_step)

text \<open>
  The caller gets through its launches.
\<close>

lemma launch_all:
  assumes "inv p ctx input output stderr s" and "mainpc s = Launching k"
    and "length (commands p) - k < m"
  shows "\<not> launching (mainpc (run p ctx input output stderr s (replicate m MainG)))"
  using assms
proof (induction m arbitrary: s k)
  case 0
  then show ?case by simp
next
  case (Suc m)
  let ?s = "step p ctx input output stderr s MainG"
  have s': "?s = main_step p s" using Suc.prems(1) by (simp add: step_inv_simps)
  have inv': "inv p ctx input output stderr ?s" using Suc.prems(1) by (rule inv_step)
  show ?case
  proof (cases "k < length (commands p)")
    case True
    with Suc.prems(2) have "mainpc ?s = Launching (Suc k)"
      by (simp add: s' main_step_def)
    moreover from True Suc.prems(3) have "length (commands p) - Suc k < m" by simp
    ultimately show ?thesis using Suc.IH [OF inv'] by simp
  next
    case False
    with Suc.prems(2) have "\<not> launching (mainpc ?s)"
      by (simp add: s' main_step_def)
    then show ?thesis by (simp add: launched_run)
  qed
qed

lemma launch_phase:
  assumes "inv p ctx input output stderr s"
  shows "\<not> launching (mainpc (run p ctx input output stderr s
           (replicate (Suc (length (commands p))) MainG)))"
proof (cases "mainpc s")
  case (Launching k)
  with assms show ?thesis by (intro launch_all [of _ _ _ _ _ _ k]) simp_all
next
  case Collecting
  then show ?thesis by (intro launched_run) simp
next
  case Finished
  then show ?thesis by (intro launched_run) simp
qed

lemma started_after_launch:
  assumes "inv p ctx input output stderr s" and "\<not> launching (mainpc s)"
    and "i < length (commands p)"
  shows "tasks s i \<noteq> NotStarted"
  using assms by (cases "mainpc s") (simp_all add: inv_def inv_main_def)

text \<open>
  A launched stage goroutine whose call returns is never stuck: each of its steps brings
  it one program point further, and five steps bring it to its end.
\<close>

lemma stage_progress:
  assumes "inv p ctx input output stderr s" and "tasks s i \<noteq> NotStarted"
    and "returns (stage_outcome p ctx input output stderr i)"
  shows "tasks (step p ctx input output stderr s (StageG i)) i \<noteq> NotStarted"
    and "steps_left (tasks (step p ctx input output stderr s (StageG i)) i)
           = steps_left (tasks s i) - 1"
proof -
  have both: "tasks (step p ctx input output stderr s (StageG i)) i \<noteq> NotStarted
      \<and> steps_left (tasks (step p ctx input output stderr s (StageG i)) i)
           = steps_left (tasks s i) - 1"
  proof (cases "tasks s i")
    case NotStarted
    with assms(2) show ?thesis by simp
  next
    case Pending
    then show ?thesis
      by (simp add: step_inv_simps [OF assms(1)] stage_step_Pending [OF assms(1) Pending])
  next
    case (Running cin cout)
    with assms(3) show ?thesis
      by (simp add: step_inv_simps [OF assms(1)] stage_step_Running [OF assms(1) Running])
  next
    case (Returned err)
    then show ?thesis
      by (simp add: step_inv_simps [OF assms(1)] stage_step_Returned [OF assms(1) Returned])
  next
    case (Closed err)
    then show ?thesis
      by (simp add: step_inv_simps [OF assms(1)] stage_step_Closed [OF assms(1) Closed])
  next
    case Reported
    then show ?thesis
      by (simp add: step_inv_simps [OF assms(1)] stage_step_Reported(1) [OF assms(1) Reported])
  next
    case Done
    then show ?thesis
      by (simp add: step_inv_simps [OF assms(1)] stage_step_def)
  qed
  from both show "tasks (step p ctx input output stderr s (StageG i)) i \<noteq> NotStarted" ..
  from both show "steps_left (tasks (step p ctx input output stderr s (StageG i)) i)
           = steps_left (tasks s i) - 1" ..
qed

lemma steps_left_0: "t \<noteq> NotStarted \<Longrightarrow> steps_left t = 0 \<Longrightarrow> t = Done"
  by (cases t) simp_all

lemma steps_left_le: "steps_left t \<le> 5"
  by (cases t) simp_all

lemma stage_runs:
  assumes "inv p ctx input output stderr s" and "tasks s i \<noteq> NotStarted"
    and "steps_left (tasks s i) \<le> m"
    and "returns (stage_outcome p ctx input output stderr i)"
  shows "tasks (run p ctx input output stderr s (replicate m (StageG i))) i = Done"
  using assms
proof (induction m arbitrary: s)
  case 0
  then show ?case by (simp add: steps_left_0)
next
  case (Suc m)
  let ?s = "step p ctx input output stderr s (StageG i)"
  have "inv p ctx input output stderr ?s" using Suc.prems(1) by (rule inv_step)
  moreover have "tasks ?s i \<noteq> NotStarted"
    using Suc.prems(1,2,4) by (rule stage_progress(1))
  moreover have "steps_left (tasks ?s i) \<le> m"
    using stage_progress(2) [OF Suc.prems(1,2,4)] Suc.prems(3) by simp
  ultimately show ?case using Suc.IH Suc.prems(4) by simp
qed

lemma done_step:
  assumes "inv p ctx input output stderr s" and "tasks s i = Done"
  shows "tasks (step p ctx input output stderr s g) i = Done"
proof (cases g)
  case MainG
  show ?thesis
  proof (cases "mainpc s")
    case (Launching k)
    from launching_bound [OF assms(1) _ Launching, of i] assms(2) have "k \<noteq> i" by auto
    with assms(2) Launching MainG show ?thesis
      by (simp add: step_def main_step_def)
  next
    case Collecting
    with assms(2) MainG show ?thesis
      by (simp add: step_def main_step_def split: list.splits)
  next
    case Finished
    with assms(2) MainG show ?thesis
      by (simp add: step_def main_step_def)
  qed
next
  case (StageG j)
  show ?thesis
  proof (cases "j = i")
    case True
    with assms(2) StageG show ?thesis by (simp add: step_def stage_step_def)
  next
    case False
    with assms(2) StageG show ?thesis
      by (simp add: step_def stage_step_def Let_def split: task.splits option.splits outcome.splits)
  qed
next
  case JoinG
  with assms(2) show ?thesis
    by (simp add: step_def join_step_def split: joinpc.splits)
qed

lemma done_run:
  assumes "inv p ctx input output stderr s" and "tasks s i = Done"
  shows "tasks (run p ctx input output stderr s sched) i = Done"
  using assms by (induction sched arbitrary: s) (simp_all add: inv_step done_step)

lemma stages_phase:
  assumes "inv p ctx input output stderr s" and "\<not> launching (mainpc s)"
    and "\<forall>i<length (commands p). returns (stage_outcome p ctx input output stderr i)"
    and "k \<le> length (commands p)"
  shows "\<forall>i<k. tasks (run p ctx input output stderr s
           (concat (map (\<lambda>i. replicate 5 (StageG i)) [0..<k]))) i = Done"
  using assms(4)
proof (induction k)
  case 0
  show ?case by simp
next
  case (Suc k)
  let ?s = "run p ctx input output stderr s (concat (map (\<lambda>i. replicate 5 (StageG i)) [0..<k]))"
  let ?t = "run p ctx input output stderr ?s (replicate 5 (StageG k))"
  from Suc have before: "\<forall>i<k. tasks ?s i = Done" by simp
  have inv': "inv p ctx input output stderr ?s" using assms(1) by (rule inv_run)
  have nl: "\<not> launching (mainpc ?s)" using assms(2) by (rule launched_run)
  from Suc.prems have k: "k < length (commands p)" by simp
  with inv' nl have "tasks ?s k \<noteq> NotStarted" by (simp add: started_after_launch)
  with inv' assms(3) k have "tasks ?t k = Done"
    by (intro stage_runs) (simp_all add: steps_left_le)
  moreover from before inv' have "\<forall>i<k. tasks ?t i = Done" by (simp add: done_run)
  ultimately have "\<forall>i<Suc k. tasks ?t i = Done" by (simp add: less_Suc_eq)
  then show ?case by (simp add: run_append)
qed

text \<open>
  When all stages are through, the join goroutine closes the channel, and the caller
  drains it and returns.
\<close>

lemma join_phase:
  assumes "inv p ctx input output stderr s" and "\<not> launching (mainpc s)"
    and "\<forall>i<length (commands p). tasks s i = Done"
  shows "errChan_closed (step p ctx input output stderr s JoinG)"
proof (cases "errChan_closed s")
  case True
  then show ?thesis by (rule closed_step)
next
  case False
  from assms(3) have "count (length (commands p)) active (tasks s) = 0"
    by (simp add: count_zero)
  with assms(1) have wg: "wg s = 0" by (simp add: inv_def)
  from assms(1,2) have "joinpc s \<noteq> JoinNotStarted"
    by (cases "mainpc s") (simp_all add: inv_def inv_main_def)
  moreover from assms(1) False have "joinpc s \<noteq> Joined"
    by (simp add: inv_def inv_chan_def)
  ultimately have "joinpc s = Waiting" by (cases "joinpc s") simp_all
  with wg False show ?thesis
    by (simp add: step_inv_simps [OF assms(1)] join_step_def)
qed

lemma finished_step_main:
  "mainpc s = Finished \<Longrightarrow> mainpc (step p ctx input output stderr s MainG) = Finished"
  by (simp add: step_def main_step_def)

lemma finished_run_main:
  "mainpc s = Finished \<Longrightarrow>
   mainpc (run p ctx input output stderr s (replicate m MainG)) = Finished"
  by (induction m arbitrary: s) (simp_all add: finished_step_main)

lemma drain_phase:
  assumes "inv p ctx input output stderr s" and "\<not> launching (mainpc s)"
    and "errChan_closed s" and "length (errChan s) \<le> m"
  shows "mainpc (run p ctx input output stderr s (replicate (Suc m) MainG)) = Finished"
  using assms
proof (induction m arbitrary: s)
  case 0
  then show ?case
    by (cases "mainpc s") (simp_all add: step_inv_simps main_step_def)
next
  case (Suc m)
  let ?s = "step p ctx input output stderr s MainG"
  have s': "?s = main_step p s" using Suc.prems(1) by (simp add: step_inv_simps)
  show ?case
  proof (cases "mainpc s = Finished")
    case True
    then have "mainpc (run p ctx input output stderr s (replicate (Suc (Suc m)) MainG)) = Finished"
      by (rule finished_run_main)
    then show ?thesis .
  next
    case False
    with Suc.prems(2) have col: "mainpc s = Collecting" by (cases "mainpc s") simp_all
    show ?thesis
    proof (cases "errChan s")
      case Nil
      with col Suc.prems(3) have "mainpc ?s = Finished" by (simp add: s' main_step_def)
      then have "mainpc (run p ctx input output stderr ?s (replicate (Suc m) MainG)) = Finished"
        by (rule finished_run_main)
      then show ?thesis by simp
    next
      case (Cons e rest)
      have "inv p ctx input output stderr ?s" using Suc.prems(1) by (rule inv_step)
      moreover have "\<not> launching (mainpc ?s)" using Suc.prems(2) by (rule launched_step)
      moreover have "errChan_closed ?s" using Suc.prems(3) by (rule closed_step)
      moreover from Cons col Suc.prems(4) have "length (errChan ?s) \<le> m"
        by (simp add: s' main_step_def)
      ultimately have "mainpc (run p ctx input output stderr ?s (replicate (Suc m) MainG)) = Finished"
        by (rule Suc.IH)
      then show ?thesis by simp
    qed
  qed
qed

lemma errChan_bound:
  assumes "inv p ctx input output stderr s"
  shows "length (errChan s) \<le> length (commands p)"
proof -
  from assms have "length (errChan s) \<le> count (length (commands p)) reported (tasks s)"
    by (simp add: inv_def inv_chan_def)
  also have "\<dots> \<le> length (commands p)" by (rule count_le)
  finally show ?thesis .
qed

text \<open>
  So when every stage returns, the schedule \<open>finish\<close> brings the caller to its return.
\<close>

lemma finish_phase:
  assumes "inv p ctx input output stderr s"
    and "\<forall>i<length (commands p). returns (stage_outcome p ctx input output stderr i)"
  shows "mainpc (run p ctx input output stderr s (finish (length (commands p)))) = Finished"
proof -
  let ?n = "length (commands p)"
  let ?s1 = "run p ctx input output stderr s (replicate (Suc ?n) MainG)"
  let ?s2 = "run p ctx input output stderr ?s1 (concat (map (\<lambda>i. replicate 5 (StageG i)) [0..<?n]))"
  let ?s3 = "step p ctx input output stderr ?s2 JoinG"
  have i1: "inv p ctx input output stderr ?s1" using assms(1) by (rule inv_run)
  have n1: "\<not> launching (mainpc ?s1)" using assms(1) by (rule launch_phase)
  have i2: "inv p ctx input output stderr ?s2" using i1 by (rule inv_run)
  have n2: "\<not> launching (mainpc ?s2)" using n1 by (rule launched_run)
  have d2: "\<forall>i<?n. tasks ?s2 i = Done" using i1 n1 assms(2) by (intro stages_phase) simp_all
  have i3: "inv p ctx input output stderr ?s3" using i2 by (rule inv_step)
  have n3: "\<not> launching (mainpc ?s3)" using n2 by (rule launched_step)
  have c3: "errChan_closed ?s3" using i2 n2 d2 by (rule join_phase)
  have "mainpc (run p ctx input output stderr ?s3 (replicate (Suc ?n) MainG)) = Finished"
    using i3 n3 c3 errChan_bound [OF i3] by (rule drain_phase)
  then show ?thesis by (simp add: finish_def run_append)
qed

text \<open>
  And whatever the other stages do, under \<open>finish\<close> a stage whose call returns gets to
  the end of its goroutine.
\<close>

lemma finish_split:
  assumes "i < n"
  shows "finish n =
     (replicate (Suc n) MainG @ concat (map (\<lambda>i. replicate 5 (StageG i)) [0..<i]))
     @ replicate 5 (StageG i)
     @ (concat (map (\<lambda>i. replicate 5 (StageG i)) [Suc i..<n]) @ [JoinG]
        @ replicate (Suc n) MainG)"
proof -
  from assms have "[0..<n] = [0..<i] @ [i..<n]"
    using upt_add_eq_append [of 0 i "n - i"] by simp
  also from assms have "[i..<n] = i # [Suc i..<n]" by (rule upt_conv_Cons)
  finally show ?thesis by (simp add: finish_def)
qed

lemma stage_finishes:
  assumes "inv p ctx input output stderr s" and "i < length (commands p)"
    and "returns (stage_outcome p ctx input output stderr i)"
  shows "tasks (run p ctx input output stderr s (finish (length (commands p)))) i = Done"
proof -
  let ?n = "length (commands p)"
  let ?s1 = "run p ctx input output stderr s (replicate (Suc ?n) MainG)"
  let ?s2 = "run p ctx input output stderr ?s1 (concat (map (\<lambda>i. replicate 5 (StageG i)) [0..<i]))"
  let ?s3 = "run p ctx input output stderr ?s2 (replicate 5 (StageG i))"
  have i1: "inv p ctx input output stderr ?s1" using assms(1) by (rule inv_run)
  have n1: "\<not> launching (mainpc ?s1)" using assms(1) by (rule launch_phase)
  have i2: "inv p ctx input output stderr ?s2" using i1 by (rule inv_run)
  have n2: "\<not> launching (mainpc ?s2)" using n1 by (rule launched_run)
  from i2 n2 assms(2) have "tasks ?s2 i \<noteq> NotStarted" by (rule started_after_launch)
  with i2 assms(3) have d3: "tasks ?s3 i = Done"
    by (intro stage_runs) (simp_all add: steps_left_le)
  have i3: "inv p ctx input output stderr ?s3" using i2 by (rule inv_run)
  from i3 d3 have "tasks (run p ctx input output stderr ?s3
      (concat (map (\<lambda>i. replicate 5 (StageG i)) [Suc i..<?n]) @ [JoinG]
        @ replicate (Suc ?n) MainG)) i = Done"
    by (rule done_run)
  then show ?thesis
    by (simp only: finish_split [OF assms(2)] run_append)
qed

section \<open>What the event list of a run contains\<close>

text \<open>
  The events of a stage are a beginning of its program, so every event of a stage in the
  event list is one of its program.
\<close>

lemma program_returns:
  "returns (stage_outcome p ctx input output stderr i) \<Longrightarrow>
   stage_program p ctx input output stderr i =
     [Call i ctx (stage_input input i) (stage_output (length (commands p)) output i)
        (CallerWriter stderr),
      Return i (stage_error p ctx input output stderr i)]
     @ close_events (length (commands p)) i
     @ report_events (PipeFail (flags p)) i (stage_error p ctx input output stderr i)
     @ [WgDone i]"
  by (cases "stage_outcome p ctx input output stderr i")
     (simp_all add: stage_program_def stage_error_def)

lemma program_hd:
  "take (Suc 0) (stage_program p ctx input output stderr i) =
     [Call i ctx (stage_input input i) (stage_output (length (commands p)) output i)
        (CallerWriter stderr)]"
  by (simp add: stage_program_def)

lemma task_events_prefix:
  assumes "task_ok p ctx input output stderr i t"
  shows "\<exists>k. task_events p ctx input output stderr i t
           = take k (stage_program p ctx input output stderr i)"
proof (cases "past_call t")
  case False
  show ?thesis
  proof (cases t)
    case NotStarted
    then have "task_events p ctx input output stderr i t
        = take 0 (stage_program p ctx input output stderr i)"
      by (simp add: task_events_def)
    then show ?thesis ..
  next
    case Pending
    then have "task_events p ctx input output stderr i t
        = take 0 (stage_program p ctx input output stderr i)"
      by (simp add: task_events_def)
    then show ?thesis ..
  next
    case (Running cin cout)
    then have "task_events p ctx input output stderr i t
        = take 1 (stage_program p ctx input output stderr i)"
      by (simp add: task_events_def program_hd)
    then show ?thesis ..
  qed (use False in simp_all)
next
  case True
  with assms have "returns (stage_outcome p ctx input output stderr i)"
    by (cases t) (simp_all add: task_ok_def)
  note prog = program_returns [OF this]
  show ?thesis
  proof (cases t)
    case (Returned err)
    then have "task_events p ctx input output stderr i t
        = take 2 (stage_program p ctx input output stderr i)"
      by (simp add: task_events_def prog)
    then show ?thesis ..
  next
    case (Closed err)
    then have "task_events p ctx input output stderr i t =
        take (Suc (Suc (length (close_events (length (commands p)) i :: ('a, 'b, 'c, 'd) event list))))
          (stage_program p ctx input output stderr i)"
      by (simp add: task_events_def prog)
    then show ?thesis ..
  next
    case Reported
    then have "task_events p ctx input output stderr i t =
        take (Suc (Suc (length (close_events (length (commands p)) i :: ('a, 'b, 'c, 'd) event list)
            + length (report_events (PipeFail (flags p)) i
                (stage_error p ctx input output stderr i) :: ('a, 'b, 'c, 'd) event list))))
          (stage_program p ctx input output stderr i)"
      by (simp add: task_events_def prog)
    then show ?thesis ..
  next
    case Done
    then have "task_events p ctx input output stderr i t =
        take (length (stage_program p ctx input output stderr i))
          (stage_program p ctx input output stderr i)"
      by (simp add: task_events_def prog)
    then show ?thesis ..
  qed (use True in simp_all)
qed

lemma task_events_Done:
  "returns (stage_outcome p ctx input output stderr i) \<Longrightarrow>
   task_events p ctx input output stderr i Done = stage_program p ctx input output stderr i"
  by (simp add: task_events_def program_returns)

lemma task_events_NotStarted: "task_events p ctx input output stderr i NotStarted = []"
  by (simp add: task_events_def)

lemma stage_events_prefix:
  assumes "inv p ctx input output stderr s"
  shows "\<exists>k. stage_events i (trace s) = take k (stage_program p ctx input output stderr i)"
  using task_events_prefix [OF inv_task(1) [OF assms, of i]]
  by (simp add: inv_task(2) [OF assms])

lemma trace_member_program:
  assumes "inv p ctx input output stderr s" and "ev \<in> set (trace s)" and "stage_of ev = Some i"
  shows "ev \<in> set (stage_program p ctx input output stderr i)" and "i < length (commands p)"
proof -
  from assms(2,3) have m: "ev \<in> set (stage_events i (trace s))"
    by (simp add: stage_events_def)
  from stage_events_prefix [OF assms(1), of i] obtain k
    where "stage_events i (trace s) = take k (stage_program p ctx input output stderr i)" ..
  with m have "ev \<in> set (take k (stage_program p ctx input output stderr i))" by simp
  then show "ev \<in> set (stage_program p ctx input output stderr i)" by (rule in_set_takeD)
  from m have "task_events p ctx input output stderr i (tasks s i) \<noteq> []"
    by (auto simp: inv_task(2) [OF assms(1)])
  then have "tasks s i \<noteq> NotStarted"
    by (auto simp: task_events_NotStarted)
  with assms(1) show "i < length (commands p)" by (rule started_less)
qed

lemma Send_in_program:
  "Send j e \<in> set (stage_program p ctx input output stderr i) \<longleftrightarrow>
     j = i \<and> PipeFail (flags p) \<and> stage_outcome p ctx input output stderr i = Returns (Some e)"
  by (auto simp: stage_program_def close_events_def report_events_def report_errors_def
      split: option.splits outcome.splits)

lemma Return_in_program:
  "Return j r \<in> set (stage_program p ctx input output stderr i) \<longleftrightarrow>
     j = i \<and> stage_outcome p ctx input output stderr i = Returns r"
  by (auto simp: stage_program_def close_events_def report_events_def report_errors_def
      split: option.splits outcome.splits)

lemma Call_in_program:
  "Call j c cin cout cerr \<in> set (stage_program p ctx input output stderr i) \<longleftrightarrow>
     j = i \<and> c = ctx \<and> cin = stage_input input i
     \<and> cout = stage_output (length (commands p)) output i \<and> cerr = CallerWriter stderr"
  by (auto simp: stage_program_def close_events_def report_events_def report_errors_def
      split: option.splits outcome.splits)

lemma filter_closes_program:
  "filter (closes_connector k) (stage_program p ctx input output stderr i) =
     (if k = i \<and> i < length (commands p) - 1
         \<and> returns (stage_outcome p ctx input output stderr i)
      then [CloseWrite i i] else [])"
  by (simp add: stage_program_def close_events_def report_events_def report_errors_def
      split: option.splits outcome.splits)

lemma filter_Call_program:
  "filter is_Call (stage_program p ctx input output stderr i) =
     [Call i ctx (stage_input input i) (stage_output (length (commands p)) output i)
        (CallerWriter stderr)]"
  by (simp add: stage_program_def close_events_def report_events_def report_errors_def
      split: option.splits outcome.splits)

lemma arrivals_member: "e \<in> set (arrivals tr) \<longleftrightarrow> (\<exists>i. Send i e \<in> set tr)"
  by (induction tr rule: arrivals.induct) auto

lemma arrivals_Nil: "arrivals tr = [] \<longleftrightarrow> (\<forall>i e. Send i e \<notin> set tr)"
proof -
  have "arrivals tr = [] \<longleftrightarrow> (\<forall>e. e \<notin> set (arrivals tr))" by (cases "arrivals tr") auto
  then show ?thesis by (auto simp: arrivals_member)
qed

lemma first_of_Some: "es \<noteq> [] \<Longrightarrow> \<exists>e. first_of es = Some e \<and> e \<in> set es"
  by (cases es) (simp_all add: first_of_def)

lemma first_of_Nil [simp]: "first_of [] = None"
  by (simp add: first_of_def)

text \<open>
  When the caller has left the receive loop, every stage goroutine is through, and the
  result is the first error that arrived on the channel, if any.
\<close>

lemma finished_state:
  assumes "inv p ctx input output stderr s" and "mainpc s = Finished"
  shows "firstErr s = first_of (arrivals (trace s))"
    and "\<forall>i<length (commands p). tasks s i = Done"
    and "\<forall>i<length (commands p). returns (stage_outcome p ctx input output stderr i)"
    and "\<forall>i<length (commands p).
           stage_events i (trace s) = stage_program p ctx input output stderr i"
proof -
  from assms show "firstErr s = first_of (arrivals (trace s))"
    by (simp add: inv_def inv_chan_def)
  from assms show d: "\<forall>i<length (commands p). tasks s i = Done"
    by (auto simp: inv_def inv_chan_def)
  show r: "\<forall>i<length (commands p). returns (stage_outcome p ctx input output stderr i)"
  proof (intro allI impI)
    fix i assume "i < length (commands p)"
    with d have "tasks s i = Done" by simp
    with inv_task(1) [OF assms(1), of i]
    show "returns (stage_outcome p ctx input output stderr i)"
      by (simp add: task_ok_def)
  qed
  show "\<forall>i<length (commands p).
           stage_events i (trace s) = stage_program p ctx input output stderr i"
    using d r by (simp add: inv_task(2) [OF assms(1)] task_events_Done)
qed

text \<open>
  The events of a stage goroutine that is through are its program, whether or not the
  caller has returned.
\<close>

lemma done_stage_events:
  assumes "inv p ctx input output stderr s" and "tasks s i = Done"
  shows "stage_events i (trace s) = stage_program p ctx input output stderr i"
proof -
  from inv_task(1) [OF assms(1), of i] assms(2)
  have "returns (stage_outcome p ctx input output stderr i)"
    by (simp add: task_ok_def)
  with assms(2) show ?thesis
    by (simp add: inv_task(2) [OF assms(1)] task_events_Done)
qed

lemma program_in_trace:
  assumes "inv p ctx input output stderr s" and "mainpc s = Finished"
    and "i < length (commands p)" and "ev \<in> set (stage_program p ctx input output stderr i)"
  shows "ev \<in> set (trace s)"
proof -
  from finished_state(4) [OF assms(1,2)] assms(3,4) have "ev \<in> set (stage_events i (trace s))"
    by simp
  then show ?thesis by (simp add: stage_events_def)
qed

text \<open>The state that \<^verbatim>\<open>Execute\<close> is in after a schedule, for two or more stages.\<close>

lemma inv_reached:
  "2 \<le> length (commands p) \<Longrightarrow>
   inv p ctx input output stderr
     (run p ctx input output stderr (init (length (commands p))) sched)"
  by (intro inv_run inv_init)

lemma Execute_many:
  assumes "2 \<le> length (commands p)"
  shows "Execute p ctx input output stderr sched =
     \<lparr>returned =
        (if mainpc (run p ctx input output stderr (init (length (commands p))) sched) = Finished
         then Some (firstErr (run p ctx input output stderr (init (length (commands p))) sched))
         else None),
      crashed = panicked (run p ctx input output stderr (init (length (commands p))) sched),
      effects = trace (run p ctx input output stderr (init (length (commands p))) sched)\<rparr>"
proof -
  from assms have "length (commands p) \<noteq> 0" and "length (commands p) \<noteq> 1" by auto
  then show ?thesis by (simp add: Execute_def Let_def)
qed

text \<open>
  \<^verbatim>\<open>Pipeline.Execute\<close> returns when every stage returns, and only then.
\<close>

lemma Execute_returns:
  assumes "\<forall>i<length (commands p). returns (stage_outcome p ctx input output stderr i)"
  shows "returned (Execute p ctx input output stderr (sched @ finish (length (commands p)))) \<noteq> None"
proof (cases "2 \<le> length (commands p)")
  case True
  with assms show ?thesis
    by (simp add: Execute_many run_append finish_phase inv_reached)
next
  case False
  then have "length (commands p) = 0 \<or> length (commands p) = 1" by arith
  then show ?thesis
  proof
    assume "length (commands p) = 0"
    then show ?thesis by (simp add: Execute_def)
  next
    assume one: "length (commands p) = 1"
    with assms have "returns (stage_outcome p ctx input output stderr 0)" by simp
    with one show ?thesis
      by (auto simp: Execute_def Let_def stage_outcome_def stage_input_def stage_output_def
          split: outcome.splits)
  qed
qed

lemma Execute_blocked:
  assumes "i < length (commands p)"
    and "\<not> returns (stage_outcome p ctx input output stderr i)"
  shows "returned (Execute p ctx input output stderr sched) = None"
proof (cases "2 \<le> length (commands p)")
  case True
  define s where "s = run p ctx input output stderr (init (length (commands p))) sched"
  have inv: "inv p ctx input output stderr s"
    unfolding s_def using True by (rule inv_reached)
  have "mainpc s \<noteq> Finished"
  proof
    assume "mainpc s = Finished"
    from finished_state(3) [OF inv this] assms show False by simp
  qed
  with True show ?thesis by (simp add: Execute_many s_def)
next
  case False
  with assms(1) have one: "length (commands p) = 1" and i: "i = 0" by simp_all
  from assms(2) i have "stage_outcome p ctx input output stderr 0 = NeverReturns"
    by (cases "stage_outcome p ctx input output stderr 0") simp_all
  with one show ?thesis
    by (simp add: Execute_def Let_def stage_outcome_def stage_input_def stage_output_def)
qed

lemma Execute_never_panics: "\<not> crashed (Execute p ctx input output stderr sched)"
proof (cases "2 \<le> length (commands p)")
  case True
  from inv_reached [OF True] True show ?thesis
    by (simp add: Execute_many inv_def)
next
  case False
  then have "length (commands p) = 0 \<or> length (commands p) = 1" by arith
  then show ?thesis by (auto simp: Execute_def Let_def split: outcome.splits)
qed

section \<open>Pipelines of two or more stages\<close>

text \<open>
  The stage that an event of the run belongs to determines the event.
\<close>

lemma CloseWrite_in_program:
  "CloseWrite j k \<in> set (stage_program p ctx input output stderr i) \<longleftrightarrow>
     j = i \<and> k = i \<and> i < length (commands p) - 1
     \<and> returns (stage_outcome p ctx input output stderr i)"
  by (cases "stage_outcome p ctx input output stderr i")
     (auto simp: stage_program_def close_events_def report_events_def report_errors_def
      split: option.splits)

lemma returned_stage_outcome:
  assumes "inv p ctx input output stderr s" and "Return i r \<in> set (trace s)"
  shows "i < length (commands p)" and "stage_outcome p ctx input output stderr i = Returns r"
proof -
  have so: "stage_of (Return i r :: ('a, 'b, 'c, 'd) event) = Some i" by simp
  from trace_member_program(2) [OF assms so] show "i < length (commands p)" .
  from trace_member_program(1) [OF assms so]
  show "stage_outcome p ctx input output stderr i = Returns r"
    by (simp add: Return_in_program)
qed

lemma sent_stage_outcome:
  assumes "inv p ctx input output stderr s" and "Send i e \<in> set (trace s)"
  shows "i < length (commands p)" and "PipeFail (flags p)"
    and "stage_outcome p ctx input output stderr i = Returns (Some e)"
proof -
  have so: "stage_of (Send i e :: ('a, 'b, 'c, 'd) event) = Some i" by simp
  from trace_member_program(2) [OF assms so] show "i < length (commands p)" .
  from trace_member_program(1) [OF assms so]
  show "PipeFail (flags p)" and "stage_outcome p ctx input output stderr i = Returns (Some e)"
    by (simp_all add: Send_in_program)
qed

text \<open>
  The result, from what the stages return.
\<close>

lemma finished_result_None:
  assumes "inv p ctx input output stderr s" and "mainpc s = Finished"
    and "\<not> PipeFail (flags p)
         \<or> (\<forall>i<length (commands p). stage_outcome p ctx input output stderr i = Returns None)"
  shows "firstErr s = None"
proof -
  have "arrivals (trace s) = []"
    unfolding arrivals_Nil
  proof (intro allI notI)
    fix i e
    assume "Send i e \<in> set (trace s)"
    from sent_stage_outcome [OF assms(1) this] assms(3) show False by auto
  qed
  with finished_state(1) [OF assms(1,2)] show ?thesis by simp
qed

lemma finished_result_Some:
  assumes "inv p ctx input output stderr s" and "mainpc s = Finished"
    and "PipeFail (flags p)" and "i < length (commands p)"
    and "stage_outcome p ctx input output stderr i = Returns (Some e)"
  shows "\<exists>e'. firstErr s = Some e' \<and> first_of (arrivals (trace s)) = Some e'
           \<and> (\<exists>j. Return j (Some e') \<in> set (trace s))"
proof -
  from assms(3,5) have "Send i e \<in> set (stage_program p ctx input output stderr i)"
    by (simp add: Send_in_program)
  with assms(1,2,4) have "Send i e \<in> set (trace s)" by (rule program_in_trace)
  then have "arrivals (trace s) \<noteq> []" by (auto simp: arrivals_Nil)
  from first_of_Some [OF this] obtain e'
    where f: "first_of (arrivals (trace s)) = Some e'" and m: "e' \<in> set (arrivals (trace s))"
    by blast
  from m obtain j where s: "Send j e' \<in> set (trace s)" by (auto simp: arrivals_member)
  from sent_stage_outcome [OF assms(1) s]
  have j: "j < length (commands p)"
    and "stage_outcome p ctx input output stderr j = Returns (Some e')"
    by simp_all
  then have "Return j (Some e') \<in> set (stage_program p ctx input output stderr j)"
    by (simp add: Return_in_program)
  with assms(1,2) j have "Return j (Some e') \<in> set (trace s)" by (rule program_in_trace)
  with f finished_state(1) [OF assms(1,2)] show ?thesis by auto
qed

text \<open>
  Only stage \<open>k\<close> closes the write end of connector \<open>k\<close>, and only the caller makes
  connectors.
\<close>

lemma filter_closes_trace:
  assumes "inv p ctx input output stderr s"
  shows "filter (closes_connector k) (trace s) = filter (closes_connector k) (stage_events k (trace s))"
proof -
  have "closes_connector k ev \<longrightarrow> stage_of ev = Some k" if "ev \<in> set (trace s)" for ev
  proof (cases ev)
    case (CloseWrite j k')
    then have so: "stage_of ev = Some j" by simp
    from trace_member_program(1) [OF assms that so] CloseWrite have "k' = j"
      by (simp add: CloseWrite_in_program)
    with CloseWrite show ?thesis by simp
  qed simp_all
  then have "filter (closes_connector k) (trace s)
      = filter (\<lambda>ev. stage_of ev = Some k \<and> closes_connector k ev) (trace s)"
    by (intro filter_cong) auto
  then show ?thesis by (simp add: stage_events_def)
qed

lemma length_filter_take: "length (filter P (take k xs)) \<le> length (filter P xs)"
proof -
  have "filter P xs = filter P (take k xs) @ filter P (drop k xs)"
    by (simp flip: filter_append)
  then show ?thesis by simp
qed

lemma filter_IoPipe_launches:
  "filter is_IoPipe (map IoPipe ks @ map GoStage js @ gs) = map IoPipe ks @ filter is_IoPipe gs"
  by (simp add: filter_map o_def)

lemma is_IoPipe_allocates: "is_IoPipe ev \<Longrightarrow> allocates_or_launches ev"
  by (cases ev) simp_all

lemma filter_IoPipe_trace:
  assumes "inv p ctx input output stderr s"
  shows "filter is_IoPipe (trace s) = map IoPipe [0..<length (commands p) - 1]"
proof -
  have "filter is_IoPipe (trace s)
      = filter (\<lambda>ev. allocates_or_launches ev \<and> is_IoPipe ev) (trace s)"
    by (intro filter_cong) (auto simp: is_IoPipe_allocates)
  also have "\<dots> = filter is_IoPipe (filter allocates_or_launches (trace s))"
    by simp
  also have "\<dots> = map IoPipe [0..<length (commands p) - 1]"
    using assms by (simp add: inv_def filter_map o_def)
  finally show ?thesis .
qed

text \<open>
  The two pipelines with a first stage that never returns never return, whatever the
  schedule.
\<close>

lemma stuck_then_failure_hangs:
  "returned (Execute stuck_then_failure () () () () sched) = None"
proof -
  have "0 < length (commands stuck_then_failure)" by code_simp
  moreover have "\<not> returns (stage_outcome stuck_then_failure () () () () 0)" by code_simp
  ultimately show ?thesis by (rule Execute_blocked)
qed

lemma stuck_then_failure_quiet_hangs:
  "returned (Execute stuck_then_failure_quiet () () () () sched) = None"
proof -
  have "0 < length (commands stuck_then_failure_quiet)" by code_simp
  moreover have "\<not> returns (stage_outcome stuck_then_failure_quiet () () () () 0)" by code_simp
  ultimately show ?thesis by (rule Execute_blocked)
qed

text \<open>
  C9. If every stage's \<^verbatim>\<open>Execute\<close> returns \<^verbatim>\<open>nil\<close>, then \<^verbatim>\<open>Pipeline.Execute\<close> returns
  \<^verbatim>\<open>nil\<close>, whatever \<^verbatim>\<open>PipeFail\<close> is. First, in a run in which every return of a stage is
  \<^verbatim>\<open>nil\<close>, the result, once there is one, is \<^verbatim>\<open>nil\<close>. Second, when the call of every
  stage returns \<^verbatim>\<open>nil\<close>, there is a result and it is \<^verbatim>\<open>nil\<close>: whatever has been scheduled
  so far, the schedule \<open>finish\<close> brings \<^verbatim>\<open>Pipeline.Execute\<close> to return it.
\<close>

theorem Execute_all_succeed:
  "((\<forall>i r. Return i r \<in> set (effects (Execute p ctx input output stderr sched)) \<longrightarrow> r = None) \<longrightarrow>
      returned (Execute p ctx input output stderr sched) \<noteq> None \<longrightarrow>
      returned (Execute p ctx input output stderr sched) = Some None)
   \<and> ((\<forall>i<length (commands p). stage_outcome p ctx input output stderr i = Returns None) \<longrightarrow>
        returned (Execute p ctx input output stderr (sched @ finish (length (commands p))))
          = Some None)"
proof (intro conjI impI)
  assume nil: "\<forall>i r. Return i r \<in> set (effects (Execute p ctx input output stderr sched)) \<longrightarrow> r = None"
    and ret: "returned (Execute p ctx input output stderr sched) \<noteq> None"
  show "returned (Execute p ctx input output stderr sched) = Some None"
  proof (cases "2 \<le> length (commands p)")
    case True
    define s where "s = run p ctx input output stderr (init (length (commands p))) sched"
    have inv: "inv p ctx input output stderr s"
      unfolding s_def using True by (rule inv_reached)
    from ret True have fin: "mainpc s = Finished"
      by (simp add: Execute_many s_def split: if_splits)
    have "stage_outcome p ctx input output stderr i = Returns None"
      if i: "i < length (commands p)" for i
    proof -
      from finished_state(3) [OF inv fin] i
      have "returns (stage_outcome p ctx input output stderr i)" by simp
      then obtain r where r: "stage_outcome p ctx input output stderr i = Returns r"
        by (cases "stage_outcome p ctx input output stderr i") simp_all
      then have "Return i r \<in> set (stage_program p ctx input output stderr i)"
        by (simp add: Return_in_program)
      with inv fin i have "Return i r \<in> set (trace s)" by (rule program_in_trace)
      with nil True have "r = None" by (simp add: Execute_many s_def)
      with r show ?thesis by simp
    qed
    then have "\<not> PipeFail (flags p)
        \<or> (\<forall>i<length (commands p). stage_outcome p ctx input output stderr i = Returns None)"
      by blast
    with inv fin have "firstErr s = None" by (rule finished_result_None)
    with fin True show ?thesis by (simp add: Execute_many s_def)
  next
    case False
    then have "length (commands p) = 0 \<or> length (commands p) = 1" by arith
    then show ?thesis
    proof
      assume "length (commands p) = 0"
      then show ?thesis by (simp add: Execute_def)
    next
      assume one: "length (commands p) = 1"
      show ?thesis
      proof (cases "(commands p ! 0) ctx (CallerReader input) (CallerWriter output)
          (CallerWriter stderr)")
        case NeverReturns
        with ret one show ?thesis by (simp add: Execute_def Let_def)
      next
        case (Returns err)
        with one have "Return 0 err \<in> set (effects (Execute p ctx input output stderr sched))"
          by (simp add: Execute_def Let_def)
        with nil have "err = None" by blast
        with Returns one show ?thesis by (simp add: Execute_def Let_def)
      qed
    qed
  qed
next
  assume all: "\<forall>i<length (commands p). stage_outcome p ctx input output stderr i = Returns None"
  let ?sc = "sched @ finish (length (commands p))"
  from all have rets: "\<forall>i<length (commands p). returns (stage_outcome p ctx input output stderr i)"
    by simp
  show "returned (Execute p ctx input output stderr ?sc) = Some None"
  proof (cases "2 \<le> length (commands p)")
    case True
    define s where "s = run p ctx input output stderr (init (length (commands p))) ?sc"
    have inv: "inv p ctx input output stderr s"
      unfolding s_def using True by (rule inv_reached)
    have fin: "mainpc s = Finished"
      unfolding s_def using True rets by (simp add: run_append finish_phase inv_reached)
    from all have "\<not> PipeFail (flags p)
        \<or> (\<forall>i<length (commands p). stage_outcome p ctx input output stderr i = Returns None)"
      by blast
    with inv fin have "firstErr s = None" by (rule finished_result_None)
    with fin True show ?thesis by (simp add: Execute_many s_def)
  next
    case False
    then have "length (commands p) = 0 \<or> length (commands p) = 1" by arith
    with all show ?thesis
      by (auto simp: Execute_def Let_def stage_outcome_def stage_input_def stage_output_def)
  qed
qed

text \<open>
  Two stages that succeed, run to the end: both calls return \<^verbatim>\<open>nil\<close>, and so does
  \<^verbatim>\<open>Pipeline.Execute\<close>.
\<close>

theorem Execute_all_succeed_witness:
  "stage_outcome no_failure () () () () 0 = Returns None
   \<and> stage_outcome no_failure () () () () 1 = Returns None
   \<and> filter is_Return (effects (Execute no_failure () () () () (finish 2)))
       = [Return 0 None, Return 1 None]
   \<and> returned (Execute no_failure () () () () (finish 2)) = Some None"
proof -
  have len: "length (commands no_failure) = 2" by code_simp
  have o0: "stage_outcome no_failure () () () () 0 = Returns None" by code_simp
  have o1: "stage_outcome no_failure () () () () 1 = Returns None" by code_simp
  have rs: "filter is_Return (effects (Execute no_failure () () () () (finish 2)))
       = [Return 0 None, Return 1 None]"
    by code_simp
  have h: "\<forall>i<length (commands no_failure). stage_outcome no_failure () () () () i = Returns None"
    using o0 o1 by (auto simp: len less_2_cases_iff)
  from Execute_all_succeed [where p = no_failure and sched = "[]"] h len
  have "returned (Execute no_failure () () () () (finish 2)) = Some None" by simp
  with o0 o1 rs show ?thesis by simp
qed

text \<open>
  C2, as the code has it. With \<^verbatim>\<open>PipeFail\<close> false, a pipeline whose number of stages is
  not one, and whose stages all return, returns \<^verbatim>\<open>nil\<close> whatever its stages return,
  terminal stage included: the result, once there is one, is \<^verbatim>\<open>nil\<close>, and when the call of
  every stage returns there is one. (A pipeline of one stage returns the stage's error, and
  a pipeline with a stage that never returns does not return.)
\<close>

theorem Execute_no_pipefail:
  assumes "\<not> PipeFail (flags p)" and "length (commands p) \<noteq> 1"
  shows "(returned (Execute p ctx input output stderr sched) \<noteq> None \<longrightarrow>
            returned (Execute p ctx input output stderr sched) = Some None)
       \<and> ((\<forall>i<length (commands p). returns (stage_outcome p ctx input output stderr i)) \<longrightarrow>
            returned (Execute p ctx input output stderr (sched @ finish (length (commands p))))
              = Some None)"
proof -
  have *: "returned (Execute p ctx input output stderr sc) = Some None"
    if ret: "returned (Execute p ctx input output stderr sc) \<noteq> None" for sc
  proof (cases "2 \<le> length (commands p)")
    case True
    define s where "s = run p ctx input output stderr (init (length (commands p))) sc"
    have inv: "inv p ctx input output stderr s"
      unfolding s_def using True by (rule inv_reached)
    from ret True have fin: "mainpc s = Finished"
      by (simp add: Execute_many s_def split: if_splits)
    from assms(1) have "\<not> PipeFail (flags p)
        \<or> (\<forall>i<length (commands p). stage_outcome p ctx input output stderr i = Returns None)"
      by blast
    with inv fin have "firstErr s = None" by (rule finished_result_None)
    with fin True show ?thesis by (simp add: Execute_many s_def)
  next
    case False
    with assms(2) have "length (commands p) = 0" by arith
    then show ?thesis by (simp add: Execute_def)
  qed
  have "returned (Execute p ctx input output stderr (sched @ finish (length (commands p))))
      = Some None"
    if "\<forall>i<length (commands p). returns (stage_outcome p ctx input output stderr i)"
    using * [OF Execute_returns [OF that]] .
  with * [of sched] show ?thesis by blast
qed

text \<open>
  A pipeline of one stage that fails, with \<^verbatim>\<open>PipeFail\<close> false: the error is returned. And
  two stages, with \<^verbatim>\<open>PipeFail\<close> false, of which the second fails at once and the first
  never returns: after \<open>finish\<close> the second stage has returned its error and
  \<^verbatim>\<open>Pipeline.Execute\<close> has not returned.
\<close>

theorem Execute_no_pipefail_counterexample:
  "\<not> PipeFail (flags lone_failure)
   \<and> returned (Execute lone_failure () () () () []) = Some (Some ''only'')
   \<and> \<not> PipeFail (flags stuck_then_failure_quiet)
   \<and> Return 1 (Some ''boom'')
        \<in> set (effects (Execute stuck_then_failure_quiet () () () () (finish 2)))
   \<and> returned (Execute stuck_then_failure_quiet () () () () (finish 2)) = None"
  by code_simp

text \<open>
  Two stages that return, the terminal one with an error, \<^verbatim>\<open>PipeFail\<close> false: the result
  is \<^verbatim>\<open>nil\<close>.
\<close>

theorem Execute_no_pipefail_witness:
  "\<not> PipeFail (flags terminal_failure)
   \<and> length (commands terminal_failure) = 2
   \<and> returns (stage_outcome terminal_failure () () () () 0)
   \<and> stage_outcome terminal_failure () () () () 1 = Returns (Some ''last'')
   \<and> returned (Execute terminal_failure () () () () (finish 2)) = Some None"
proof -
  have h1: "\<not> PipeFail (flags terminal_failure)" by code_simp
  have len: "length (commands terminal_failure) = 2" by code_simp
  then have h2: "length (commands terminal_failure) \<noteq> 1" by simp
  have o0: "returns (stage_outcome terminal_failure () () () () 0)" by code_simp
  have o1: "stage_outcome terminal_failure () () () () 1 = Returns (Some ''last'')" by code_simp
  have h3: "\<forall>i<length (commands terminal_failure).
      returns (stage_outcome terminal_failure () () () () i)"
    using o0 o1 by (auto simp: len less_2_cases_iff)
  from Execute_no_pipefail [OF h1 h2, where sched = "[]"] h3 len
  have "returned (Execute terminal_failure () () () () (finish 2)) = Some None" by simp
  with h1 len o0 o1 show ?thesis by simp
qed

text \<open>
  C1, as the code has it. With \<^verbatim>\<open>PipeFail\<close> true, if a stage's \<^verbatim>\<open>Execute\<close> has returned an
  error and every stage returns, then \<^verbatim>\<open>Pipeline.Execute\<close> returns an error: one value, which
  is an error that one of the stages returned, and for two or more stages the first one
  that arrived on the channel, in the order of the sends and not of the positions. The
  result, once there is one, is such an error, and when the call of every stage returns
  there is one. (A pipeline with a stage that never returns does not return.)
\<close>

theorem Execute_pipefail:
  assumes "PipeFail (flags p)"
    and "Return i (Some e) \<in> set (effects (Execute p ctx input output stderr sched))"
  shows "(returned (Execute p ctx input output stderr sched) \<noteq> None \<longrightarrow>
           (\<exists>e'. returned (Execute p ctx input output stderr sched) = Some (Some e')
              \<and> (\<exists>j. Return j (Some e') \<in> set (effects (Execute p ctx input output stderr sched)))
              \<and> (2 \<le> length (commands p) \<longrightarrow>
                   first_of (arrivals (effects (Execute p ctx input output stderr sched))) = Some e')))
       \<and> ((\<forall>j<length (commands p). returns (stage_outcome p ctx input output stderr j)) \<longrightarrow>
            (\<exists>e'. returned (Execute p ctx input output stderr (sched @ finish (length (commands p))))
               = Some (Some e')))"
proof (cases "2 \<le> length (commands p)")
  case True
  define s where "s = run p ctx input output stderr (init (length (commands p))) sched"
  define s' where "s' = run p ctx input output stderr (init (length (commands p)))
      (sched @ finish (length (commands p)))"
  have inv: "inv p ctx input output stderr s"
    unfolding s_def using True by (rule inv_reached)
  have inv': "inv p ctx input output stderr s'"
    unfolding s'_def using True by (rule inv_reached)
  from assms(2) True have "Return i (Some e) \<in> set (trace s)"
    by (simp add: Execute_many s_def)
  from returned_stage_outcome [OF inv this]
  have i: "i < length (commands p)"
    and err: "stage_outcome p ctx input output stderr i = Returns (Some e)"
    by simp_all
  have live: "\<exists>e'. returned (Execute p ctx input output stderr (sched @ finish (length (commands p))))
             = Some (Some e')"
    if rets: "\<forall>j<length (commands p). returns (stage_outcome p ctx input output stderr j)"
  proof -
    have fin': "mainpc s' = Finished"
      unfolding s'_def using inv rets by (simp add: run_append s_def finish_phase)
    from finished_result_Some [OF inv' fin' assms(1) i err] fin' True show ?thesis
      by (auto simp: Execute_many s'_def)
  qed
  have "\<exists>e'. returned (Execute p ctx input output stderr sched) = Some (Some e')
              \<and> (\<exists>j. Return j (Some e') \<in> set (effects (Execute p ctx input output stderr sched)))
              \<and> (2 \<le> length (commands p) \<longrightarrow>
                   first_of (arrivals (effects (Execute p ctx input output stderr sched))) = Some e')"
    if ret: "returned (Execute p ctx input output stderr sched) \<noteq> None"
  proof -
    from ret True have fin: "mainpc s = Finished"
      by (simp add: Execute_many s_def split: if_splits)
    from finished_result_Some [OF inv fin assms(1) i err] fin True show ?thesis
      by (auto simp: Execute_many s_def)
  qed
  with live show ?thesis by blast
next
  case False
  then have "length (commands p) = 0 \<or> length (commands p) = 1" by arith
  then show ?thesis
  proof
    assume "length (commands p) = 0"
    with assms(2) show ?thesis by (simp add: Execute_def)
  next
    assume one: "length (commands p) = 1"
    with assms(2)
    have "(commands p ! 0) ctx (CallerReader input) (CallerWriter output) (CallerWriter stderr)
        = Returns (Some e)"
      by (auto simp: Execute_def Let_def split: outcome.splits)
    with one show ?thesis by (simp add: Execute_def Let_def)
  qed
qed

text \<open>
  Two stages, with \<^verbatim>\<open>PipeFail\<close> set, of which the second fails at once and the first never
  returns, as when it writes to the connector that the second has not read: after
  \<open>finish\<close> the second stage has returned its error and \<^verbatim>\<open>Pipeline.Execute\<close> has not
  returned.
\<close>

theorem Execute_pipefail_counterexample:
  "PipeFail (flags stuck_then_failure)
   \<and> Return 1 (Some ''boom'')
        \<in> set (effects (Execute stuck_then_failure () () () () (finish 2)))
   \<and> returned (Execute stuck_then_failure () () () () (finish 2)) = None"
  by code_simp

text \<open>
  Three stages of which the first and the last fail, under a schedule that lets the last
  stage finish first: the result is the error of the last stage, which arrived first.
\<close>

theorem Execute_pipefail_witness:
  "PipeFail (flags two_failures)
   \<and> Return 0 (Some ''first'') \<in> set (effects (Execute two_failures () () () () last_stage_first))
   \<and> returned (Execute two_failures () () () () last_stage_first) = Some (Some ''last'')
   \<and> first_of (arrivals (effects (Execute two_failures () () () () last_stage_first))) = Some ''last''"
proof -
  have h1: "PipeFail (flags two_failures)" by code_simp
  have h2: "Return 0 (Some ''first'') \<in> set (effects (Execute two_failures () () () () last_stage_first))"
    by code_simp
  have ret: "returned (Execute two_failures () () () () last_stage_first) = Some (Some ''last'')"
    by code_simp
  have len: "2 \<le> length (commands two_failures)" by code_simp
  from Execute_pipefail [OF h1 h2] ret len
  have "first_of (arrivals (effects (Execute two_failures () () () () last_stage_first))) = Some ''last''"
    by auto
  with h1 h2 ret show ?thesis by simp
qed

text \<open>
  C4. In a pipeline of two or more stages, for a stage \<open>i\<close> that is not the last: the
  events of its goroutine are, at any moment of any run, a beginning of its program, which
  is the call and, if the call returns, the return, the close of the write end of
  connector \<open>i\<close>, and what follows, in this order and whatever error is returned. So the
  close comes right after the return. No run closes that write end twice. When the call
  of the stage returns, the schedule \<open>finish\<close> brings the goroutine through its program,
  whatever the other stages do, and the write end has then been closed exactly once; so it
  has when \<^verbatim>\<open>Pipeline.Execute\<close> has returned.
\<close>

theorem connector_closed_once:
  assumes "2 \<le> length (commands p)" and "i < length (commands p) - 1"
  shows "(\<exists>k. stage_events i (effects (Execute p ctx input output stderr sched))
             = take k (stage_program p ctx input output stderr i))
       \<and> stage_program p ctx input output stderr i
           = Call i ctx (stage_input input i) (PipeWriter i) (CallerWriter stderr)
             # (case stage_outcome p ctx input output stderr i of
                  NeverReturns \<Rightarrow> []
                | Returns err \<Rightarrow>
                    Return i err # CloseWrite i i
                    # report_events (PipeFail (flags p)) i err @ [WgDone i])
       \<and> length (filter (closes_connector i) (effects (Execute p ctx input output stderr sched))) \<le> 1
       \<and> (returned (Execute p ctx input output stderr sched) \<noteq> None \<longrightarrow>
            stage_events i (effects (Execute p ctx input output stderr sched))
              = stage_program p ctx input output stderr i
            \<and> filter (closes_connector i) (effects (Execute p ctx input output stderr sched))
              = [CloseWrite i i])
       \<and> (returns (stage_outcome p ctx input output stderr i) \<longrightarrow>
            stage_events i
              (effects (Execute p ctx input output stderr (sched @ finish (length (commands p)))))
              = stage_program p ctx input output stderr i
            \<and> filter (closes_connector i)
                (effects (Execute p ctx input output stderr (sched @ finish (length (commands p)))))
              = [CloseWrite i i])"
proof -
  define s where "s = run p ctx input output stderr (init (length (commands p))) sched"
  define s' where "s' = run p ctx input output stderr (init (length (commands p)))
      (sched @ finish (length (commands p)))"
  have inv: "inv p ctx input output stderr s"
    unfolding s_def using assms(1) by (rule inv_reached)
  have inv': "inv p ctx input output stderr s'"
    unfolding s'_def using assms(1) by (rule inv_reached)
  have eff: "effects (Execute p ctx input output stderr sched) = trace s"
    using assms(1) by (simp add: Execute_many s_def)
  have eff': "effects (Execute p ctx input output stderr (sched @ finish (length (commands p))))
      = trace s'"
    using assms(1) by (simp add: Execute_many s'_def)
  from assms(2) have i: "i < length (commands p)" by simp
  from stage_events_prefix [OF inv, of i] obtain k
    where k: "stage_events i (trace s) = take k (stage_program p ctx input output stderr i)" ..
  have pre: "\<exists>k. stage_events i (effects (Execute p ctx input output stderr sched))
             = take k (stage_program p ctx input output stderr i)"
    using k eff by auto
  have prog: "stage_program p ctx input output stderr i
           = Call i ctx (stage_input input i) (PipeWriter i) (CallerWriter stderr)
             # (case stage_outcome p ctx input output stderr i of
                  NeverReturns \<Rightarrow> []
                | Returns err \<Rightarrow>
                    Return i err # CloseWrite i i
                    # report_events (PipeFail (flags p)) i err @ [WgDone i])"
    using assms(2)
    by (simp add: stage_program_def close_events_def stage_output_def split: outcome.splits)
  have "length (filter (closes_connector i) (trace s))
      \<le> length (filter (closes_connector i) (stage_program p ctx input output stderr i))"
    by (simp add: filter_closes_trace [OF inv] k length_filter_take)
  then have once: "length (filter (closes_connector i) (effects (Execute p ctx input output stderr sched))) \<le> 1"
    by (simp add: eff filter_closes_program split: if_splits)
  have through: "stage_events i (trace t) = stage_program p ctx input output stderr i
            \<and> filter (closes_connector i) (trace t) = [CloseWrite i i]"
    if "inv p ctx input output stderr t" and "tasks t i = Done" for t
  proof -
    from inv_task(1) [OF that(1), of i] that(2)
    have "returns (stage_outcome p ctx input output stderr i)" by (simp add: task_ok_def)
    with done_stage_events [OF that] assms(2) show ?thesis
      by (simp add: filter_closes_trace [OF that(1)] filter_closes_program)
  qed
  have fin: "stage_events i (effects (Execute p ctx input output stderr sched))
              = stage_program p ctx input output stderr i
            \<and> filter (closes_connector i) (effects (Execute p ctx input output stderr sched))
              = [CloseWrite i i]"
    if ret: "returned (Execute p ctx input output stderr sched) \<noteq> None"
  proof -
    from ret assms(1) have f: "mainpc s = Finished"
      by (simp add: Execute_many s_def split: if_splits)
    from finished_state(2) [OF inv f] i have "tasks s i = Done" by simp
    from through [OF inv this] show ?thesis by (simp add: eff)
  qed
  have live: "stage_events i
              (effects (Execute p ctx input output stderr (sched @ finish (length (commands p)))))
              = stage_program p ctx input output stderr i
            \<and> filter (closes_connector i)
                (effects (Execute p ctx input output stderr (sched @ finish (length (commands p)))))
              = [CloseWrite i i]"
    if rets: "returns (stage_outcome p ctx input output stderr i)"
  proof -
    from stage_finishes [OF inv i rets] have "tasks s' i = Done"
      by (simp add: s'_def s_def run_append)
    from through [OF inv' this] show ?thesis by (simp add: eff')
  qed
  from pre prog once fin live show ?thesis
    by blast
qed

text \<open>
  The first stage of the run with two failures returns an error; its connector is closed
  once, right after its return.
\<close>

theorem connector_closed_once_witness:
  "2 \<le> length (commands two_failures)
   \<and> 0 < length (commands two_failures) - 1
   \<and> returned (Execute two_failures () () () () last_stage_first) = Some (Some ''last'')
   \<and> stage_events 0 (effects (Execute two_failures () () () () last_stage_first))
       = [Call 0 () (CallerReader ()) (PipeWriter 0) (CallerWriter ()), Return 0 (Some ''first''),
          CloseWrite 0 0, Send 0 ''first'', WgDone 0]
   \<and> filter (closes_connector 0) (effects (Execute two_failures () () () () last_stage_first))
       = [CloseWrite 0 0]"
proof -
  have h1: "2 \<le> length (commands two_failures)" by code_simp
  have h2: "0 < length (commands two_failures) - 1" by code_simp
  have ret: "returned (Execute two_failures () () () () last_stage_first) = Some (Some ''last'')"
    by code_simp
  have prog: "stage_program two_failures () () () () 0
       = [Call 0 () (CallerReader ()) (PipeWriter 0) (CallerWriter ()), Return 0 (Some ''first''),
          CloseWrite 0 0, Send 0 ''first'', WgDone 0]"
    by code_simp
  from connector_closed_once [OF h1 h2, where sched = last_stage_first] ret
  have "stage_events 0 (effects (Execute two_failures () () () () last_stage_first))
          = stage_program two_failures () () () () 0
        \<and> filter (closes_connector 0) (effects (Execute two_failures () () () () last_stage_first))
          = [CloseWrite 0 0]"
    by simp
  with h1 h2 ret prog show ?thesis by simp
qed

text \<open>
  C5. In a pipeline of \<open>N\<close>, two or more, stages, every run makes exactly the \<open>N - 1\<close>
  connectors \<open>0, \<dots>, N - 2\<close>; whenever a stage \<open>j\<close> is called, it is with the caller's
  context, with the external input if \<open>j = 0\<close> and else the read end of connector \<open>j - 1\<close>,
  with the external output if \<open>j = N - 1\<close> and else the write end of connector \<open>j\<close>, and
  with the caller's error stream; when \<^verbatim>\<open>Pipeline.Execute\<close> has returned, every stage has
  been called exactly once. So what stage \<open>j\<close> writes to is the connector that stage
  \<open>j + 1\<close> reads from. When the call of every stage returns, \<^verbatim>\<open>Pipeline.Execute\<close> returns.
\<close>

theorem stages_wired_in_a_chain:
  assumes "2 \<le> length (commands p)"
  shows "filter is_IoPipe (effects (Execute p ctx input output stderr sched))
           = map IoPipe [0..<length (commands p) - 1]
       \<and> (\<forall>j c cin cout cerr.
            Call j c cin cout cerr \<in> set (effects (Execute p ctx input output stderr sched)) \<longrightarrow>
              j < length (commands p) \<and> c = ctx
              \<and> cin = (if j = 0 then CallerReader input else PipeReader (j - 1))
              \<and> cout = (if j = length (commands p) - 1 then CallerWriter output else PipeWriter j)
              \<and> cerr = CallerWriter stderr)
       \<and> (returned (Execute p ctx input output stderr sched) \<noteq> None \<longrightarrow>
            (\<forall>j<length (commands p).
               filter is_Call (stage_events j (effects (Execute p ctx input output stderr sched)))
                 = [Call j ctx (stage_input input j) (stage_output (length (commands p)) output j)
                      (CallerWriter stderr)]))
       \<and> (\<forall>j. j + 1 < length (commands p) \<longrightarrow>
            stage_output (length (commands p)) output j = PipeWriter j
            \<and> stage_input input (j + 1) = PipeReader j)
       \<and> ((\<forall>j<length (commands p). returns (stage_outcome p ctx input output stderr j)) \<longrightarrow>
            returned (Execute p ctx input output stderr (sched @ finish (length (commands p))))
              \<noteq> None)"
proof -
  define s where "s = run p ctx input output stderr (init (length (commands p))) sched"
  have inv: "inv p ctx input output stderr s"
    unfolding s_def using assms(1) by (rule inv_reached)
  have eff: "effects (Execute p ctx input output stderr sched) = trace s"
    using assms(1) by (simp add: Execute_many s_def)
  have pipes: "filter is_IoPipe (effects (Execute p ctx input output stderr sched))
           = map IoPipe [0..<length (commands p) - 1]"
    by (simp add: eff filter_IoPipe_trace [OF inv])
  have calls: "j < length (commands p) \<and> c = ctx
              \<and> cin = (if j = 0 then CallerReader input else PipeReader (j - 1))
              \<and> cout = (if j = length (commands p) - 1 then CallerWriter output else PipeWriter j)
              \<and> cerr = CallerWriter stderr"
    if "Call j c cin cout cerr \<in> set (effects (Execute p ctx input output stderr sched))"
    for j c cin cout cerr
  proof -
    from that have m: "Call j c cin cout cerr \<in> set (trace s)" by (simp add: eff)
    have so: "stage_of (Call j c cin cout cerr) = Some j" by simp
    from trace_member_program [OF inv m so] show ?thesis
      by (simp add: Call_in_program stage_input_def stage_output_def)
  qed
  have once: "\<forall>j<length (commands p).
               filter is_Call (stage_events j (effects (Execute p ctx input output stderr sched)))
                 = [Call j ctx (stage_input input j) (stage_output (length (commands p)) output j)
                      (CallerWriter stderr)]"
    if ret: "returned (Execute p ctx input output stderr sched) \<noteq> None"
  proof -
    from ret assms(1) have f: "mainpc s = Finished"
      by (simp add: Execute_many s_def split: if_splits)
    from finished_state(4) [OF inv f] show ?thesis
      by (simp add: eff filter_Call_program)
  qed
  have chain: "\<forall>j. j + 1 < length (commands p) \<longrightarrow>
            stage_output (length (commands p)) output j = PipeWriter j
            \<and> stage_input input (j + 1) = PipeReader j"
    by (simp add: stage_output_def stage_input_def)
  have live: "returned (Execute p ctx input output stderr (sched @ finish (length (commands p))))
      \<noteq> None"
    if "\<forall>j<length (commands p). returns (stage_outcome p ctx input output stderr j)"
    using that by (rule Execute_returns)
  from pipes calls once chain live show ?thesis
    by blast
qed

text \<open>
  The same run makes two connectors, and its middle stage reads connector 0 and writes
  connector 1.
\<close>

theorem stages_wired_in_a_chain_witness:
  "2 \<le> length (commands two_failures)
   \<and> returned (Execute two_failures () () () () last_stage_first) = Some (Some ''last'')
   \<and> filter is_IoPipe (effects (Execute two_failures () () () () last_stage_first))
       = [IoPipe 0, IoPipe 1]
   \<and> filter is_Call (stage_events 1 (effects (Execute two_failures () () () () last_stage_first)))
       = [Call 1 () (PipeReader 0) (PipeWriter 1) (CallerWriter ())]"
proof -
  have h1: "2 \<le> length (commands two_failures)" by code_simp
  have len: "length (commands two_failures) = 3" by code_simp
  have ret: "returned (Execute two_failures () () () () last_stage_first) = Some (Some ''last'')"
    by code_simp
  have up: "[0..<2] = [0, 1]" by code_simp
  note wired = stages_wired_in_a_chain [OF h1, where sched = last_stage_first]
  from wired have "filter is_IoPipe (effects (Execute two_failures () () () () last_stage_first))
       = map IoPipe [0..<length (commands two_failures) - 1]"
    by blast
  then have a: "filter is_IoPipe (effects (Execute two_failures () () () () last_stage_first))
       = [IoPipe 0, IoPipe 1]"
    by (simp add: len up)
  from wired ret have "\<forall>j<length (commands two_failures).
      filter is_Call (stage_events j (effects (Execute two_failures () () () () last_stage_first)))
        = [Call j () (stage_input () j) (stage_output (length (commands two_failures)) () j)
             (CallerWriter ())]"
    by simp
  then have b: "filter is_Call (stage_events 1 (effects (Execute two_failures () () () () last_stage_first)))
       = [Call 1 () (PipeReader 0) (PipeWriter 1) (CallerWriter ())]"
    by (simp add: len stage_input_def stage_output_def)
  from h1 ret a b show ?thesis by simp
qed

end
